theory Spec2Isabelle
  imports Complex_Main "HOL-Library.Word"
begin

section \<open>Data model\<close>

text \<open>
  The development follows \<^verbatim>\<open>smooth-scroll.py\<close>. A Python \<^verbatim>\<open>str\<close> is a sequence of
  Unicode code points, so it is a list of naturals; \<^verbatim>\<open>bytes\<close> is a list of 8-bit words.
  Python's \<^verbatim>\<open>int\<close> is \<open>int\<close>. The amount and the product of line 115 are IEEE
  double-precision numbers (\<open>pyfloat\<close> below, with rounding to the nearest double, the
  infinities and NaN). Durations and velocities are idealised as exact rationals: there
  a float division raises exactly when the divisor is zero, and rounding is left out.
\<close>

type_synonym pystr = "nat list"
type_synonym byte = "8 word"

datatype error = UnicodeEncodeError | OverflowError | OSError | ZeroDivisionError | ValueError

datatype byteorder = Little | Big

definition ascii :: "string \<Rightarrow> pystr" where
  "ascii s = map of_char s"

subsection \<open>\<^verbatim>\<open>str.encode('utf-8')\<close>\<close>

text \<open>
  One code point to its UTF-8 bytes. A lone surrogate makes CPython raise
  \<^verbatim>\<open>UnicodeEncodeError\<close>; a value from \<open>0x110000\<close> on is no code point of a Python
  string and is rejected the same way.
\<close>

definition encode_cp :: "nat \<Rightarrow> error + byte list" where
  "encode_cp c =
     (if c < 0x80 then Inr [of_nat c]
      else if c < 0x800 then Inr [of_nat (0xC0 + c div 64), of_nat (0x80 + c mod 64)]
      else if c < 0x10000 then
        (if 0xD800 \<le> c \<and> c < 0xE000 then Inl UnicodeEncodeError
         else Inr [of_nat (0xE0 + c div 4096), of_nat (0x80 + c div 64 mod 64),
                   of_nat (0x80 + c mod 64)])
      else if c < 0x110000 then
        Inr [of_nat (0xF0 + c div 262144), of_nat (0x80 + c div 4096 mod 64),
             of_nat (0x80 + c div 64 mod 64), of_nat (0x80 + c mod 64)]
      else Inl UnicodeEncodeError)"

fun utf8_encode :: "pystr \<Rightarrow> error + byte list" where
  "utf8_encode [] = Inr []"
| "utf8_encode (c # cs) =
     (case encode_cp c of
        Inl e \<Rightarrow> Inl e
      | Inr bs \<Rightarrow> (case utf8_encode cs of Inl e \<Rightarrow> Inl e | Inr rest \<Rightarrow> Inr (bs @ rest)))"

subsection \<open>\<^verbatim>\<open>KakSender._get_length_bytes\<close>\<close>

text \<open>
  \<^verbatim>\<open>str_length.to_bytes(4, byteorder=sys.byteorder)\<close>: four bytes in the byte order of
  the machine, \<^verbatim>\<open>OverflowError\<close> when the number does not fit. The argument is a
  length, hence a natural number.
\<close>

definition to_bytes4 :: "byteorder \<Rightarrow> nat \<Rightarrow> byte list" where
  "to_bytes4 bo n =
     (let le = [of_nat (n mod 256), of_nat (n div 256 mod 256),
                of_nat (n div 65536 mod 256), of_nat (n div 16777216 mod 256)]
      in case bo of Little \<Rightarrow> le | Big \<Rightarrow> rev le)"

definition get_length_bytes :: "byteorder \<Rightarrow> nat \<Rightarrow> error + byte list" where
  "get_length_bytes bo str_length =
     (if str_length < 4294967296 then Inr (to_bytes4 bo str_length) else Inl OverflowError)"

subsection \<open>\<^verbatim>\<open>KakSender.send_cmd\<close>\<close>

text \<open>
  Lines 43 to 45 of the source: the content is the length of the command followed by
  the command, the header is the magic byte followed by the length of the content plus
  five.
\<close>

definition frame_message :: "byteorder \<Rightarrow> byte list \<Rightarrow> error + byte list" where
  "frame_message bo b_cmd =
     (case get_length_bytes bo (length b_cmd) of
        Inl e \<Rightarrow> Inl e
      | Inr lb \<Rightarrow>
          (let b_content = lb @ b_cmd
           in case get_length_bytes bo (length b_content + 5) of
                Inl e \<Rightarrow> Inl e
              | Inr hb \<Rightarrow> (let b_header = 2 # hb in Inr (b_header @ b_content))))"

text \<open>
  The sender and its surroundings. \<open>connect_ok k\<close> tells whether the \<open>k\<close>-th
  connection of the run can be opened, and \<open>sock_send k m\<close> is what the socket
  answers when the message \<open>m\<close> is offered on it: the number of bytes it accepted, or
  an error.
\<close>

record sender =
  client :: pystr
  byte_order :: byteorder
  connect_ok :: "nat \<Rightarrow> bool"
  sock_send :: "nat \<Rightarrow> byte list \<Rightarrow> error + nat"

text \<open>
  What a run has done so far: the connections it has opened or tried to open, the
  messages it has offered to a socket with the number of bytes accepted, and the ticks
  it has completed (the step and the least duration of each).
\<close>

record world =
  attempts :: nat
  wire :: "(byte list \<times> nat) list"
  ticks :: "(int \<times> rat) list"

definition world0 :: world where
  "world0 = \<lparr>attempts = 0, wire = [], ticks = []\<rparr>"

definition send_cmd :: "sender \<Rightarrow> pystr \<Rightarrow> world \<Rightarrow> (error + bool) \<times> world" where
  "send_cmd s cmd w =
     (case utf8_encode cmd of
        Inl e \<Rightarrow> (Inl e, w)
      | Inr b_cmd \<Rightarrow>
          (let k = attempts w; w1 = w\<lparr>attempts := k + 1\<rparr>
           in if \<not> connect_ok s k then (Inl OSError, w1)
              else case frame_message (byte_order s) b_cmd of
                     Inl e \<Rightarrow> (Inl e, w1)
                   | Inr b_message \<Rightarrow>
                       (case sock_send s k b_message of
                          Inl e \<Rightarrow> (Inl e, w1)
                        | Inr n \<Rightarrow> (Inr (n = length b_message),
                                    w1\<lparr>wire := wire w1 @ [(b_message, n)]\<rparr>))))"

definition send_keys :: "sender \<Rightarrow> pystr \<Rightarrow> world \<Rightarrow> (error + bool) \<times> world" where
  "send_keys s keys w =
     send_cmd s (ascii ''execute-keys -client '' @ client s @ ascii '' '' @ keys) w"

subsection \<open>The receiving side of the wire protocol\<close>

text \<open>
  The reader of a message is the editor, which is no part of this program. The
  decoder below follows the layout of the wire protocol as the specification gives it
  (magic byte at offset 0, total length at offset 1, command length at offset 5, the
  command from offset 9), and serves to state the round trip.
\<close>

definition from_bytes4 :: "byteorder \<Rightarrow> byte list \<Rightarrow> nat" where
  "from_bytes4 bo bs =
     (let le = (case bo of Little \<Rightarrow> bs | Big \<Rightarrow> rev bs)
      in foldr (\<lambda>b acc. unat b + 256 * acc) le 0)"

definition is_cont :: "byte \<Rightarrow> bool" where
  "is_cont b = (0x80 \<le> unat b \<and> unat b < 0xC0)"

definition decode_cp :: "byte list \<Rightarrow> (nat \<times> byte list) option" where
  "decode_cp bs =
     (case bs of
        [] \<Rightarrow> None
      | b0 # r0 \<Rightarrow>
          (let x = unat b0
           in if x < 0x80 then Some (x, r0)
              else if x < 0xC0 then None
              else if x < 0xE0 then
                (case r0 of
                   b1 # r1 \<Rightarrow>
                     if is_cont b1 then Some ((x - 0xC0) * 64 + (unat b1 - 0x80), r1)
                     else None
                 | _ \<Rightarrow> None)
              else if x < 0xF0 then
                (case r0 of
                   b1 # b2 # r2 \<Rightarrow>
                     if is_cont b1 \<and> is_cont b2
                     then Some ((x - 0xE0) * 4096 + (unat b1 - 0x80) * 64 + (unat b2 - 0x80), r2)
                     else None
                 | _ \<Rightarrow> None)
              else
                (case r0 of
                   b1 # b2 # b3 # r3 \<Rightarrow>
                     if is_cont b1 \<and> is_cont b2 \<and> is_cont b3
                     then Some ((x - 0xF0) * 262144 + (unat b1 - 0x80) * 4096
                                + (unat b2 - 0x80) * 64 + (unat b3 - 0x80), r3)
                     else None
                 | _ \<Rightarrow> None)))"

function utf8_decode :: "byte list \<Rightarrow> pystr option" where
  "utf8_decode bs =
     (if bs = [] then Some []
      else case decode_cp bs of
             None \<Rightarrow> None
           | Some (c, r) \<Rightarrow> map_option ((#) c) (utf8_decode r))"
  by pat_completeness auto
termination
  by (relation "measure length")
     (auto simp: decode_cp_def Let_def split: list.splits if_splits)

declare utf8_decode.simps [simp del]

definition decode_message :: "byteorder \<Rightarrow> byte list \<Rightarrow> pystr option" where
  "decode_message bo m =
     (case m of
        [] \<Rightarrow> None
      | magic # rest \<Rightarrow>
          if magic = 2 \<and> 8 \<le> length rest then
               (let total_length = from_bytes4 bo (take 4 rest);
                    command_length = from_bytes4 bo (take 4 (drop 4 rest));
                    command = drop 8 rest
                in if total_length = (4 + command_length) + 5 \<and> length command = command_length
                   then utf8_decode command else None)
          else None)"

section \<open>Scrolling\<close>

subsection \<open>\<^verbatim>\<open>scroll_once\<close>\<close>

text \<open>The decimal digits of a natural number, as an f-string prints them.\<close>

fun str_nat :: "nat \<Rightarrow> pystr" where
  "str_nat n = (if n < 10 then [48 + n] else str_nat (n div 10) @ [48 + n mod 10])"

declare str_nat.simps [simp del]

definition scroll_keys :: "int \<Rightarrow> pystr" where
  "scroll_keys step =
     (let speed = nat \<bar>step\<bar>
      in if step > 0 then str_nat speed @ ascii ''j'' @ str_nat speed @ ascii ''vj''
         else str_nat speed @ ascii ''k'' @ str_nat speed @ ascii ''vk'')"

text \<open>
  One tick: the keys are sent, the answer of \<^verbatim>\<open>send_keys\<close> is dropped, and the tick
  is made to last \<open>duration\<close> seconds at least. The time the sending took is not part
  of the model; the tick is recorded with the step and the duration it was given.
\<close>

definition scroll_once :: "sender \<Rightarrow> int \<Rightarrow> rat \<Rightarrow> world \<Rightarrow> (error + unit) \<times> world" where
  "scroll_once s step duration w =
     (case send_keys s (scroll_keys step) w of
        (Inl e, w1) \<Rightarrow> (Inl e, w1)
      | (Inr _, w1) \<Rightarrow> (Inr (), w1\<lparr>ticks := ticks w1 @ [(step, duration)]\<rparr>))"

text \<open>
  The message \<^verbatim>\<open>scroll_once\<close> offers to the socket for a step: what \<^verbatim>\<open>send_keys\<close>
  and \<^verbatim>\<open>send_cmd\<close> compute before they touch the socket.
\<close>

definition step_message :: "sender \<Rightarrow> int \<Rightarrow> error + byte list" where
  "step_message s step =
     (case utf8_encode (ascii ''execute-keys -client '' @ client s @ ascii '' ''
                        @ scroll_keys step) of
        Inl e \<Rightarrow> Inl e
      | Inr b_cmd \<Rightarrow> frame_message (byte_order s) b_cmd)"

subsection \<open>\<^verbatim>\<open>inertial_scroll\<close>\<close>

definition float_div :: "rat \<Rightarrow> rat \<Rightarrow> error + rat" where
  "float_div a b = (if b = 0 then Inl ZeroDivisionError else Inr (a / b))"

text \<open>\<^verbatim>\<open>sum(1. / x for x in range(2, n_lines + 1))\<close>\<close>

definition harmonic_from2 :: "int \<Rightarrow> rat" where
  "harmonic_from2 n_lines = sum_list (map (\<lambda>x. 1 / of_int x) [2..n_lines])"

definition initial_velocity :: "int \<Rightarrow> rat \<Rightarrow> error + rat" where
  "initial_velocity n_lines duration =
     float_div (of_int n_lines * harmonic_from2 n_lines) (of_int (n_lines - 1) * duration)"

text \<open>
  The loop of lines 87 to 89, over the values of \<open>i\<close> that are left, with the
  velocity as it stands.
\<close>

fun inertial_loop ::
  "sender \<Rightarrow> int \<Rightarrow> int \<Rightarrow> rat \<Rightarrow> int list \<Rightarrow> rat \<Rightarrow> world \<Rightarrow> (error + unit) \<times> world" where
  "inertial_loop s step n_lines d_velocity [] velocity w = (Inr (), w)"
| "inertial_loop s step n_lines d_velocity (i # is) velocity w =
     (case float_div 1 velocity of
        Inl e \<Rightarrow> (Inl e, w)
      | Inr d \<Rightarrow>
          (case scroll_once s step (d * (if i < n_lines - 1 then 1 else 0)) w of
             (Inl e, w1) \<Rightarrow> (Inl e, w1)
           | (Inr _, w1) \<Rightarrow> inertial_loop s step n_lines d_velocity is (velocity - d_velocity) w1))"

definition inertial_scroll :: "sender \<Rightarrow> int \<Rightarrow> rat \<Rightarrow> world \<Rightarrow> (error + unit) \<times> world" where
  "inertial_scroll s target duration w =
     (let n_lines = \<bar>target\<bar>; step = (if target > 0 then 1 else - 1)
      in case initial_velocity n_lines duration of
           Inl e \<Rightarrow> (Inl e, w)
         | Inr velocity \<Rightarrow>
             (case float_div velocity (of_int n_lines) of
                Inl e \<Rightarrow> (Inl e, w)
              | Inr d_velocity \<Rightarrow>
                  inertial_loop s step n_lines d_velocity [0..n_lines - 1] velocity w))"

subsection \<open>Double-precision numbers\<close>

text \<open>
  A Python \<^verbatim>\<open>float\<close>: a finite value, an infinity or NaN. The sign of a zero is not
  kept: nothing below divides by a product or prints one.
\<close>

datatype pyfloat = Finite rat | PInf | NInf | NaN

fun bit_length :: "nat \<Rightarrow> nat" where
  "bit_length n = (if n = 0 then 0 else Suc (bit_length (n div 2)))"

declare bit_length.simps [simp del]

definition pow2 :: "int \<Rightarrow> rat" where
  "pow2 e = (if 0 \<le> e then 2 ^ nat e else 1 / 2 ^ nat (- e))"

definition round_half_even :: "rat \<Rightarrow> int" where
  "round_half_even z =
     (let f = \<lfloor>z\<rfloor>; d = z - of_int f
      in if d < 1 / 2 then f else if 1 / 2 < d then f + 1
         else if even f then f else f + 1)"

text \<open>
  The exponent \<open>e\<close> with \<open>2 ^ e \<le> x < 2 ^ (e + 1)\<close> for a positive \<open>x\<close>, and \<open>- 1022\<close>
  for the subnormal numbers below.
\<close>

definition binade :: "rat \<Rightarrow> int" where
  "binade x =
     (let y = x * pow2 1022
      in if y < 1 then - 1022 else int (bit_length (nat \<lfloor>y\<rfloor>)) - 1 - 1022)"

text \<open>
  Rounding to the nearest double, ties to the even significand: 53 bits in the binade of
  the number, and an infinity from \<open>2 ^ 1024\<close> on (\<open>pow2 e\<close> is \<open>2 ^ e\<close>).
\<close>

definition round_double :: "rat \<Rightarrow> pyfloat" where
  "round_double x =
     (if x = 0 then Finite 0
      else
        (let q = pow2 (binade \<bar>x\<bar> - 52);
             y = of_int (round_half_even (\<bar>x\<bar> / q)) * q
         in if pow2 1024 \<le> y then (if 0 < x then PInf else NInf)
            else Finite (if 0 < x then y else - y)))"

definition float_sign :: "pyfloat \<Rightarrow> int" where
  "float_sign a =
     (case a of
        Finite x \<Rightarrow> (if 0 < x then 1 else if x < 0 then - 1 else 0)
      | PInf \<Rightarrow> 1
      | NInf \<Rightarrow> - 1
      | NaN \<Rightarrow> 0)"

text \<open>\<^verbatim>\<open>a > 0\<close>, \<^verbatim>\<open>abs(a)\<close> and \<^verbatim>\<open>a * b\<close> on floats.\<close>

definition float_pos :: "pyfloat \<Rightarrow> bool" where
  "float_pos a = (case a of Finite x \<Rightarrow> 0 < x | PInf \<Rightarrow> True | NInf \<Rightarrow> False | NaN \<Rightarrow> False)"

definition float_abs :: "pyfloat \<Rightarrow> pyfloat" where
  "float_abs a = (case a of Finite x \<Rightarrow> Finite \<bar>x\<bar> | PInf \<Rightarrow> PInf | NInf \<Rightarrow> PInf | NaN \<Rightarrow> NaN)"

definition float_mul :: "pyfloat \<Rightarrow> pyfloat \<Rightarrow> pyfloat" where
  "float_mul a b =
     (case (a, b) of
        (NaN, _) \<Rightarrow> NaN
      | (_, NaN) \<Rightarrow> NaN
      | (Finite x, Finite y) \<Rightarrow> round_double (x * y)
      | _ \<Rightarrow>
          (if float_sign a = 0 \<or> float_sign b = 0 then NaN
           else if (0 < float_sign a) = (0 < float_sign b) then PInf else NInf))"

text \<open>
  An \<^verbatim>\<open>int\<close> that meets a float is converted to the nearest double;
  \<^verbatim>\<open>OverflowError\<close> when it is too large for one.
\<close>

definition float_of_int :: "int \<Rightarrow> error + pyfloat" where
  "float_of_int n =
     (case round_double (of_int n) of
        Finite x \<Rightarrow> Inr (Finite x)
      | _ \<Rightarrow> Inl OverflowError)"

text \<open>
  \<^verbatim>\<open>int(x)\<close> of a float cuts the fraction off, towards zero; an infinity raises
  \<^verbatim>\<open>OverflowError\<close> and NaN raises \<^verbatim>\<open>ValueError\<close>.
\<close>

definition int_of_float :: "pyfloat \<Rightarrow> error + int" where
  "int_of_float a =
     (case a of
        Finite x \<Rightarrow> Inr (if 0 \<le> x then \<lfloor>x\<rfloor> else \<lceil>x\<rceil>)
      | PInf \<Rightarrow> Inl OverflowError
      | NInf \<Rightarrow> Inl OverflowError
      | NaN \<Rightarrow> Inl ValueError)"

subsection \<open>\<^verbatim>\<open>main\<close>\<close>

text \<open>
  The values \<^verbatim>\<open>main\<close> reads from the environment and from the command line, already
  parsed; \<open>duration_ms\<close> is the second argument, in milliseconds.
\<close>

record request =
  cursor_line :: int
  line_count :: int
  window_height :: int
  kak_count :: int
  amount :: pyfloat
  duration_ms :: rat
  speed :: int

definition maxscroll :: "request \<Rightarrow> int" where
  "maxscroll r =
     (if float_pos (amount r) then line_count r - cursor_line r else cursor_line r - 1)"

text \<open>
  Line 115 up to \<^verbatim>\<open>int\<close>: \<^verbatim>\<open>count * abs(amount) * (window_height - 2)\<close>, from left to
  right; each integer is converted to a double where it meets one.
\<close>

definition line_product :: "request \<Rightarrow> error + pyfloat" where
  "line_product r =
     (let count = max 1 (kak_count r)
      in case float_of_int count of
           Inl e \<Rightarrow> Inl e
         | Inr c \<Rightarrow>
             (case float_of_int (window_height r - 2) of
                Inl e \<Rightarrow> Inl e
              | Inr h \<Rightarrow> Inr (float_mul (float_mul c (float_abs (amount r))) h)))"

definition n_lines :: "request \<Rightarrow> error + int" where
  "n_lines r =
     (case line_product r of
        Inl e \<Rightarrow> Inl e
      | Inr p \<Rightarrow>
          (case int_of_float p of
             Inl e \<Rightarrow> Inl e
           | Inr n \<Rightarrow> Inr (min n (maxscroll r))))"

text \<open>The loop of lines 120 and 121; \<open>n_times\<close> is the source's \<^verbatim>\<open>times\<close>.\<close>

fun fixed_loop ::
  "sender \<Rightarrow> int \<Rightarrow> rat \<Rightarrow> int \<Rightarrow> int list \<Rightarrow> world \<Rightarrow> (error + unit) \<times> world" where
  "fixed_loop s step duration n_times [] w = (Inr (), w)"
| "fixed_loop s step duration n_times (i # is) w =
     (case scroll_once s step (duration * (if i < n_times - 1 then 1 else 0)) w of
        (Inl e, w1) \<Rightarrow> (Inl e, w1)
      | (Inr _, w1) \<Rightarrow> fixed_loop s step duration n_times is w1)"

definition main :: "sender \<Rightarrow> request \<Rightarrow> world \<Rightarrow> (error + unit) \<times> world" where
  "main s r w =
     (let duration = duration_ms r / 1000
      in if maxscroll r = 0 then (Inr (), w)
         else
           (case n_lines r of
              Inl e \<Rightarrow> (Inl e, w)
            | Inr n \<Rightarrow>
                (let sign = (if float_pos (amount r) then 1 else - 1)
                 in if speed r > 0 \<or> duration < 1 / 1000 then
                      (let n_times = n div max (speed r) 1
                       in fixed_loop s (sign * speed r) duration n_times [0..n_times - 1] w)
                    else inertial_scroll s (sign * n) duration w)))"

text \<open>
  The specification's reading of the number of lines, with rounding to the nearest
  integer in place of \<^verbatim>\<open>int\<close>; it is here to be compared with \<^const>\<open>n_lines\<close>.
\<close>

definition n_lines_spec :: "request \<Rightarrow> error + int" where
  "n_lines_spec r =
     (case line_product r of
        Inr (Finite p) \<Rightarrow> Inr (min (round p) (maxscroll r))
      | Inr PInf \<Rightarrow> Inl OverflowError
      | Inr NInf \<Rightarrow> Inl OverflowError
      | Inr NaN \<Rightarrow> Inl ValueError
      | Inl e \<Rightarrow> Inl e)"

subsection \<open>A sender for the examples\<close>

text \<open>
  Every connection opens and the socket takes every byte it is offered; the machine is
  little-endian and the client is called \<^verbatim>\<open>client0\<close>.
\<close>

definition loopback :: sender where
  "loopback = \<lparr>client = ascii ''client0'', byte_order = Little,
                connect_ok = (\<lambda>k. True), sock_send = (\<lambda>k m. Inr (length m))\<rparr>"

section \<open>Rounding to a double\<close>

lemma bit_length_bounds:
  "0 < n \<Longrightarrow> 2 ^ (bit_length n - 1) \<le> n \<and> n < 2 ^ bit_length n"
proof (induction n rule: bit_length.induct)
  case (1 n)
  show ?case
  proof (cases "n div 2 = 0")
    case True
    then have n1: "n = Suc 0" using "1.prems" by auto
    have "bit_length (Suc 0) = Suc 0"
      by (simp add: bit_length.simps[of "Suc 0"] bit_length.simps[of 0])
    then show ?thesis
      unfolding n1 by simp
  next
    case False
    then have pos: "0 < n div 2" by simp
    have ih: "2 ^ (bit_length (n div 2) - 1) \<le> n div 2 \<and> n div 2 < 2 ^ bit_length (n div 2)"
      using "1.IH" "1.prems" pos by simp
    have bl: "bit_length n = Suc (bit_length (n div 2))"
      using "1.prems" by (subst bit_length.simps) simp
    have blpos: "0 < bit_length (n div 2)"
      using pos by (subst bit_length.simps) simp
    then obtain k where k: "bit_length (n div 2) = Suc k"
      by (cases "bit_length (n div 2)") auto
    show ?thesis
      using ih unfolding bl k by simp linarith
  qed
qed

lemma bit_length_unique:
  assumes "2 ^ k \<le> n" and "n < 2 ^ Suc k"
  shows "bit_length n = Suc k"
proof -
  have "(0::nat) < 2 ^ k" by simp
  then have pos: "0 < n" using assms(1) by linarith
  from bit_length_bounds[OF pos]
  have lo: "2 ^ (bit_length n - 1) \<le> n" and hi: "n < 2 ^ bit_length n"
    by simp_all
  have "(2::nat) ^ k < 2 ^ bit_length n" using assms(1) hi by linarith
  then have a: "k < bit_length n"
    by (rule power_less_imp_less_exp[rotated]) simp
  have "(2::nat) ^ (bit_length n - 1) < 2 ^ Suc k" using lo assms(2) by linarith
  then have b: "bit_length n - 1 < Suc k"
    by (rule power_less_imp_less_exp[rotated]) simp
  show ?thesis using a b by linarith
qed

lemma pow2_powi: "pow2 e = 2 powi e"
  by (simp add: pow2_def power_int_def power_one_over inverse_eq_divide)

lemma pow2_pos: "0 < pow2 e"
  unfolding pow2_def by simp

lemma pow2_add: "pow2 (a + b) = pow2 a * pow2 b"
  unfolding pow2_powi by (rule power_int_add) simp

lemma pow2_nat: "pow2 (int k) = 2 ^ k"
  unfolding pow2_def by simp

lemma pow2_mono: "a \<le> b \<Longrightarrow> pow2 a \<le> pow2 b"
proof -
  assume "a \<le> b"
  then obtain k where b: "b = a + int k"
    by (metis zle_iff_zadd)
  have "(1::rat) \<le> 2 ^ k" by simp
  then have "pow2 a * 1 \<le> pow2 a * 2 ^ k"
    using pow2_pos[of a] by (intro mult_left_mono) simp_all
  then show ?thesis
    unfolding b pow2_add pow2_nat by simp
qed

lemma binade_eq:
  assumes lo: "pow2 e \<le> x" and hi: "x < pow2 (e + 1)" and e: "- 1022 \<le> e"
  shows "binade x = e"
proof -
  define k where "k = nat (e + 1022)"
  have ek: "e + 1022 = int k" using e by (simp add: k_def)
  have ek1: "e + 1 + 1022 = int (Suc k)" using e by (simp add: k_def)
  have p: "pow2 e * pow2 1022 = 2 ^ k"
    unfolding pow2_add[symmetric] ek pow2_nat ..
  have p1: "pow2 (e + 1) * pow2 1022 = 2 ^ Suc k"
    unfolding pow2_add[symmetric] ek1 pow2_nat ..
  define y where "y = x * pow2 1022"
  have "pow2 e * pow2 1022 \<le> x * pow2 1022"
    using lo pow2_pos[of 1022] by (intro mult_right_mono) simp_all
  then have ylo: "2 ^ k \<le> y" unfolding p y_def .
  have "x * pow2 1022 < pow2 (e + 1) * pow2 1022"
    using hi pow2_pos[of 1022] by (intro mult_strict_right_mono) simp_all
  then have yhi: "y < 2 ^ Suc k" unfolding p1 y_def .
  have "(1::rat) \<le> 2 ^ k" by simp
  then have y1: "\<not> y < 1" using ylo by linarith
  have "of_int (2 ^ k) \<le> y" using ylo by simp
  then have flo: "(2::int) ^ k \<le> \<lfloor>y\<rfloor>"
    by (simp only: le_floor_iff)
  have "y < of_int (2 ^ Suc k)" using yhi by simp
  then have fhi: "\<lfloor>y\<rfloor> < (2::int) ^ Suc k"
    by (simp only: floor_less_iff)
  have f0: "0 \<le> \<lfloor>y\<rfloor>" using flo by (meson order_trans zero_le_numeral zero_le_power)
  have "int (2 ^ k) \<le> \<lfloor>y\<rfloor>" using flo by simp
  then have nlo: "2 ^ k \<le> nat \<lfloor>y\<rfloor>" using f0 by linarith
  have "\<lfloor>y\<rfloor> < int (2 ^ Suc k)" using fhi by simp
  then have nhi: "nat \<lfloor>y\<rfloor> < 2 ^ Suc k" using f0 by linarith
  have "bit_length (nat \<lfloor>y\<rfloor>) = Suc k"
    using bit_length_unique[OF nlo nhi] .
  then show ?thesis
    using y1 ek unfolding binade_def Let_def y_def[symmetric] by simp
qed

lemma round_half_even_int: "round_half_even (of_int k) = k"
  by (simp add: round_half_even_def)

lemma round_double_exact:
  assumes lo: "pow2 e \<le> \<bar>x\<bar>" and hi: "\<bar>x\<bar> < pow2 (e + 1)"
    and e: "- 1022 \<le> e" and e': "e \<le> 1023"
    and k: "\<bar>x\<bar> / pow2 (e - 52) = of_int k"
  shows "round_double x = Finite x"
proof -
  have b: "binade \<bar>x\<bar> = e" using binade_eq[OF lo hi e] .
  have x0: "x \<noteq> 0" using lo pow2_pos[of e] by auto
  have y: "of_int (round_half_even (\<bar>x\<bar> / pow2 (e - 52))) * pow2 (e - 52) = \<bar>x\<bar>"
    unfolding k round_half_even_int using k pow2_pos[of "e - 52"]
    by (metis nonzero_divide_eq_eq less_irrefl)
  have "pow2 (e + 1) \<le> pow2 1024" using e' by (intro pow2_mono) simp
  then have small: "\<not> pow2 1024 \<le> \<bar>x\<bar>" using hi by linarith
  show ?thesis
    unfolding round_double_def b Let_def y using x0 small by auto
qed

lemma float_of_int_1: "float_of_int 1 = Inr (Finite 1)"
proof -
  have "round_double (of_int 1) = Finite (of_int 1)"
    by (rule round_double_exact[where e = 0 and k = "2 ^ 52"]) (simp_all add: pow2_def)
  then show ?thesis by (simp add: float_of_int_def)
qed

lemma float_of_int_40: "float_of_int 40 = Inr (Finite 40)"
proof -
  have "round_double (of_int 40) = Finite (of_int 40)"
    by (rule round_double_exact[where e = 5 and k = "40 * 2 ^ 47"]) (simp_all add: pow2_def)
  then show ?thesis by (simp add: float_of_int_def)
qed

section \<open>The dispatcher\<close>

lemma float_of_int_small:
  assumes "\<bar>n\<bar> < 2 ^ 53"
  shows "float_of_int n = Inr (Finite (of_int n))"
proof (cases "n = 0")
  case True
  then show ?thesis by (simp add: float_of_int_def round_double_def)
next
  case False
  define m where "m = nat \<bar>n\<bar>"
  have mpos: "0 < m" using False by (simp add: m_def)
  have mn: "\<bar>of_int n :: rat\<bar> = of_nat m" by (simp add: m_def)
  define b where "b = bit_length m"
  from bit_length_bounds[OF mpos]
  have lo: "2 ^ (b - 1) \<le> m" and hi: "m < 2 ^ b" by (simp_all add: b_def)
  have "m < 2 ^ 53" using assms by (simp add: m_def nat_less_iff)
  then have "(2::nat) ^ (b - 1) < 2 ^ 53" using lo by linarith
  then have b53: "b - 1 < 53" by (rule power_less_imp_less_exp[rotated]) simp
  have bpos: "0 < b" using hi mpos by (cases b) auto
  define e where "e = int (b - 1)"
  have e1: "e + 1 = int b" using bpos by (simp add: e_def)
  have lo': "pow2 e \<le> \<bar>of_int n :: rat\<bar>"
    unfolding mn e_def pow2_nat using lo by (metis of_nat_le_iff of_nat_numeral of_nat_power)
  have hi': "\<bar>of_int n :: rat\<bar> < pow2 (e + 1)"
    unfolding mn e1 pow2_nat using hi by (metis of_nat_less_iff of_nat_numeral of_nat_power)
  have eb: "- 1022 \<le> e" "e \<le> 1023" using b53 by (simp_all add: e_def)
  have "pow2 (e - 52) * pow2 (int (53 - b)) = pow2 0"
    unfolding pow2_add[symmetric] using b53 bpos by (simp add: e_def)
  then have inv: "pow2 (e - 52) * 2 ^ (53 - b) = 1"
    unfolding pow2_nat by (simp add: pow2_def)
  have "\<bar>of_int n :: rat\<bar> / pow2 (e - 52) = of_nat m * 2 ^ (53 - b)"
    unfolding mn using inv pow2_pos[of "e - 52"]
    by (simp add: field_simps)
  also have "\<dots> = of_int (int (m * 2 ^ (53 - b)))" by simp
  finally have k: "\<bar>of_int n :: rat\<bar> / pow2 (e - 52) = of_int (int (m * 2 ^ (53 - b)))" .
  have "round_double (of_int n) = Finite (of_int n)"
    using round_double_exact[OF lo' hi' eb k] .
  then show ?thesis by (simp add: float_of_int_def)
qed

lemma line_product_plain:
  assumes "kak_count r \<le> 1" and "amount r = Finite a"
    and "round_double \<bar>a\<bar> = Finite \<bar>a\<bar>" and "\<bar>window_height r - 2\<bar> < 2 ^ 53"
  shows "line_product r = Inr (round_double (\<bar>a\<bar> * of_int (window_height r - 2)))"
proof -
  have c: "max 1 (kak_count r) = 1" using assms(1) by simp
  have f1: "float_of_int 1 = Inr (Finite 1)"
    using float_of_int_small[of 1] by simp
  show ?thesis
    unfolding line_product_def c Let_def f1 float_of_int_small[OF assms(4)]
    using assms(2,3) by (simp add: float_mul_def float_abs_def)
qed

lemma round_double_one: "round_double \<bar>1\<bar> = Finite \<bar>1\<bar>"
  by (rule round_double_exact[where e = 0 and k = "2 ^ 52"]) (simp_all add: pow2_def)

lemma round_double_quarter: "round_double \<bar>1 / 4\<bar> = Finite \<bar>1 / 4\<bar>"
  by (rule round_double_exact[where e = "- 2" and k = "2 ^ 52"]) (simp_all add: pow2_def)

lemma round_double_seven_quarters: "round_double (7 / 4) = Finite (7 / 4)"
  by (rule round_double_exact[where e = 0 and k = "7 * 2 ^ 50"]) (simp_all add: pow2_def)

lemma round_double_forty: "round_double 40 = Finite 40"
  by (rule round_double_exact[where e = 5 and k = "40 * 2 ^ 47"]) (simp_all add: pow2_def)

text \<open>
  C8. When \<^verbatim>\<open>maxscroll\<close> is zero, \<^verbatim>\<open>main\<close> returns at once: it ends without an error
  and the world is as it was, so no connection was opened, no message was offered to a
  socket and no tick was made.
\<close>

theorem main_maxscroll_zero_sends_nothing:
  "maxscroll r = 0 \<Longrightarrow> main s r w = (Inr (), w)"
  by (simp add: main_def)

theorem main_maxscroll_zero_sends_nothing_witness:
  "maxscroll \<lparr>cursor_line = 100, line_count = 100, window_height = 42, kak_count = 0,
              amount = Finite 1, duration_ms = 10, speed = 0\<rparr> = 0
   \<and> main loopback \<lparr>cursor_line = 100, line_count = 100, window_height = 42, kak_count = 0,
                    amount = Finite 1, duration_ms = 10, speed = 0\<rparr> world0 = (Inr (), world0)"
  using main_maxscroll_zero_sends_nothing
    [of "\<lparr>cursor_line = 100, line_count = 100, window_height = 42, kak_count = 0,
          amount = Finite 1, duration_ms = 10, speed = 0\<rparr>" loopback world0]
  by (simp add: maxscroll_def float_pos_def)

lemma floor_seven_quarters: "\<lfloor>7 / 4 :: rat\<rfloor> = 1"
  by (rule floor_unique) simp_all

lemma floor_nine_quarters: "\<lfloor>9 / 4 :: rat\<rfloor> = 2"
  by (rule floor_unique) simp_all

lemma line_product_quarter_of_nine:
  "line_product \<lparr>cursor_line = 1, line_count = 100, window_height = 9, kak_count = 0,
                 amount = Finite (1 / 4), duration_ms = 10, speed = sp\<rparr> = Inr (Finite (7 / 4))"
  using line_product_plain[of "\<lparr>cursor_line = 1, line_count = 100, window_height = 9,
      kak_count = 0, amount = Finite (1 / 4), duration_ms = 10, speed = sp\<rparr>" "1 / 4"]
    round_double_quarter round_double_seven_quarters
  by simp

text \<open>
  C3, as the specification states it, fails: \<^verbatim>\<open>main\<close> applies \<^verbatim>\<open>int\<close> to the product,
  which cuts the fraction off. A quarter of a screen in a window of nine lines is 1.75
  lines (exactly, in doubles too): the program plans 1 line where rounding to the nearest
  integer gives 2.
\<close>

theorem n_lines_round_counterexample:
  "maxscroll \<lparr>cursor_line = 1, line_count = 100, window_height = 9, kak_count = 0,
              amount = Finite (1 / 4), duration_ms = 10, speed = 0\<rparr> \<noteq> 0
   \<and> n_lines \<lparr>cursor_line = 1, line_count = 100, window_height = 9, kak_count = 0,
               amount = Finite (1 / 4), duration_ms = 10, speed = 0\<rparr> = Inr 1
   \<and> n_lines_spec \<lparr>cursor_line = 1, line_count = 100, window_height = 9, kak_count = 0,
                    amount = Finite (1 / 4), duration_ms = 10, speed = 0\<rparr> = Inr 2"
  by (simp add: n_lines_def n_lines_spec_def line_product_quarter_of_nine maxscroll_def
      float_pos_def int_of_float_def round_def floor_seven_quarters floor_nine_quarters)

lemma main_planned:
  assumes "maxscroll r \<noteq> 0" and "n_lines r = Inr n"
  shows "main s r w =
     (if speed r > 0 \<or> duration_ms r / 1000 < 1 / 1000
      then fixed_loop s ((if float_pos (amount r) then 1 else - 1) * speed r)
             (duration_ms r / 1000) (n div max (speed r) 1) [0..n div max (speed r) 1 - 1] w
      else inertial_scroll s ((if float_pos (amount r) then 1 else - 1) * n)
             (duration_ms r / 1000) w)"
  using assms by (simp add: main_def Let_def)

lemma main_not_planned:
  assumes "maxscroll r \<noteq> 0" and "n_lines r = Inl e"
  shows "main s r w = (Inl e, w)"
  using assms by (simp add: main_def Let_def)

text \<open>
  C3, amended. With \<^verbatim>\<open>maxscroll\<close> not zero, the number of lines \<^verbatim>\<open>main\<close> plans to
  scroll is the smaller of \<^verbatim>\<open>maxscroll\<close> and the product of line 115 with its fraction
  cut off (rounded towards zero: the sign of the product times the floor of its absolute
  value). The product is the one the program computes, in doubles, from left to right;
  when it is an infinity or NaN the dispatch raises \<^verbatim>\<open>OverflowError\<close> or
  \<^verbatim>\<open>ValueError\<close> and sends nothing. The number planned is the one \<^verbatim>\<open>main\<close> hands to
  the fixed-speed loop (divided by the speed) or to \<^verbatim>\<open>inertial_scroll\<close>. For an amount
  of 1.0, a window of 42 lines and a repeat count of 1 it is the smaller of 40 and
  \<^verbatim>\<open>maxscroll\<close>.
\<close>

theorem n_lines_truncates:
  assumes "maxscroll r \<noteq> 0"
  shows "(\<forall>p. line_product r = Inr (Finite p) \<longrightarrow>
            n_lines r = Inr (min ((if p < 0 then - 1 else 1) * \<lfloor>\<bar>p\<bar>\<rfloor>) (maxscroll r)))
       \<and> (line_product r = Inr PInf \<or> line_product r = Inr NInf
            \<longrightarrow> n_lines r = Inl OverflowError)
       \<and> (line_product r = Inr NaN \<longrightarrow> n_lines r = Inl ValueError)
       \<and> (\<forall>n. n_lines r = Inr n \<longrightarrow>
            main s r w =
              (if speed r > 0 \<or> duration_ms r / 1000 < 1 / 1000
               then fixed_loop s ((if float_pos (amount r) then 1 else - 1) * speed r)
                      (duration_ms r / 1000) (n div max (speed r) 1)
                      [0..n div max (speed r) 1 - 1] w
               else inertial_scroll s ((if float_pos (amount r) then 1 else - 1) * n)
                      (duration_ms r / 1000) w))
       \<and> (\<forall>e. n_lines r = Inl e \<longrightarrow> main s r w = (Inl e, w))
       \<and> (amount r = Finite 1 \<and> window_height r = 42 \<and> kak_count r \<le> 1
            \<longrightarrow> n_lines r = Inr (min 40 (maxscroll r)))"
proof (intro conjI allI impI)
  fix p assume "line_product r = Inr (Finite p)"
  then show "n_lines r = Inr (min ((if p < 0 then - 1 else 1) * \<lfloor>\<bar>p\<bar>\<rfloor>) (maxscroll r))"
    by (simp add: n_lines_def int_of_float_def ceiling_def)
next
  assume "line_product r = Inr PInf \<or> line_product r = Inr NInf"
  then show "n_lines r = Inl OverflowError"
    by (auto simp: n_lines_def int_of_float_def)
next
  assume "line_product r = Inr NaN"
  then show "n_lines r = Inl ValueError"
    by (simp add: n_lines_def int_of_float_def)
next
  fix n assume "n_lines r = Inr n"
  then show "main s r w =
              (if speed r > 0 \<or> duration_ms r / 1000 < 1 / 1000
               then fixed_loop s ((if float_pos (amount r) then 1 else - 1) * speed r)
                      (duration_ms r / 1000) (n div max (speed r) 1)
                      [0..n div max (speed r) 1 - 1] w
               else inertial_scroll s ((if float_pos (amount r) then 1 else - 1) * n)
                      (duration_ms r / 1000) w)"
    using main_planned[OF assms] by simp
next
  fix e assume "n_lines r = Inl e"
  then show "main s r w = (Inl e, w)"
    using main_not_planned[OF assms] by simp
next
  assume a: "amount r = Finite 1 \<and> window_height r = 42 \<and> kak_count r \<le> 1"
  then have "line_product r = Inr (round_double (\<bar>1\<bar> * of_int (window_height r - 2)))"
    using line_product_plain[of r 1] round_double_one by simp
  then have "line_product r = Inr (Finite 40)"
    using a round_double_forty by simp
  then show "n_lines r = Inr (min 40 (maxscroll r))"
    by (simp add: n_lines_def int_of_float_def)
qed

text \<open>
  C2 fails on the code. With a target of one line the sum over \<^verbatim>\<open>range(2, 2)\<close> is
  empty and \<^verbatim>\<open>(n_lines - 1) * duration\<close> is zero, so computing the initial velocity
  divides by zero: \<^verbatim>\<open>inertial_scroll\<close> raises \<^verbatim>\<open>ZeroDivisionError\<close> and makes no step
  at all, whatever the duration and the direction.
\<close>

theorem inertial_scroll_one_line_raises:
  "inertial_scroll s 1 d w = (Inl ZeroDivisionError, w)
   \<and> inertial_scroll s (- 1) d w = (Inl ZeroDivisionError, w)"
  by (simp add: inertial_scroll_def initial_velocity_def float_div_def)

text \<open>
  C10. With a speed of 0, a tick of one millisecond at least, \<^verbatim>\<open>maxscroll\<close> positive
  and a product that \<^verbatim>\<open>int\<close> cuts down to 0, \<^verbatim>\<open>main\<close> calls \<^verbatim>\<open>inertial_scroll\<close> with
  a target of 0. There the initial velocity is computed without error (it is zero), the
  division of the velocity by \<^verbatim>\<open>n_lines\<close> is a division by zero, and the run ends with
  \<^verbatim>\<open>ZeroDivisionError\<close> in an unchanged world: nothing was sent.
\<close>

theorem inertial_zero_target_raises:
  assumes "speed r = 0" and "1 \<le> duration_ms r" and "0 < maxscroll r"
    and "line_product r = Inr p" and "int_of_float p = Inr 0"
  shows "n_lines r = Inr 0
     \<and> initial_velocity 0 (duration_ms r / 1000) = Inr 0
     \<and> float_div 0 (of_int 0) = Inl ZeroDivisionError
     \<and> main s r w = (Inl ZeroDivisionError, w)"
proof -
  have n: "n_lines r = Inr 0"
    using assms(3,4,5) by (simp add: n_lines_def)
  have d: "duration_ms r / 1000 \<noteq> 0" "\<not> duration_ms r / 1000 < 1 / 1000"
    using assms(2) by auto
  have v: "initial_velocity 0 (duration_ms r / 1000) = Inr 0"
    using d by (simp add: initial_velocity_def float_div_def harmonic_from2_def)
  have m: "main s r w = (Inl ZeroDivisionError, w)"
    using assms(1,3) d n v by (simp add: main_def Let_def inertial_scroll_def float_div_def)
  show ?thesis
    using n v m by (simp add: float_div_def)
qed

lemma round_double_128th: "round_double \<bar>1 / 128\<bar> = Finite \<bar>1 / 128\<bar>"
  by (rule round_double_exact[where e = "- 7" and k = "2 ^ 52"]) (simp_all add: pow2_def)

lemma round_double_21_64: "round_double (21 / 64) = Finite (21 / 64)"
  by (rule round_double_exact[where e = "- 2" and k = "21 * 2 ^ 48"]) (simp_all add: pow2_def)

lemma floor_21_64: "\<lfloor>21 / 64 :: rat\<rfloor> = 0"
  by (rule floor_unique) simp_all

theorem inertial_zero_target_raises_witness:
  "main loopback \<lparr>cursor_line = 1, line_count = 100, window_height = 44, kak_count = 0,
                  amount = Finite (1 / 128), duration_ms = 10, speed = 0\<rparr> world0
     = (Inl ZeroDivisionError, world0)"
proof -
  let ?r = "\<lparr>cursor_line = 1, line_count = 100, window_height = 44, kak_count = 0,
             amount = Finite (1 / 128), duration_ms = 10, speed = 0\<rparr> :: request"
  have p: "line_product ?r = Inr (Finite (21 / 64))"
    using line_product_plain[of ?r "1 / 128"] round_double_128th round_double_21_64
    by simp
  have i: "int_of_float (Finite (21 / 64)) = Inr 0"
    by (simp add: int_of_float_def floor_21_64)
  have a: "speed ?r = 0" "1 \<le> duration_ms ?r" "0 < maxscroll ?r"
    by (simp_all add: maxscroll_def float_pos_def)
  show ?thesis
    using inertial_zero_target_raises[OF a p i, of loopback world0] by simp
qed

section \<open>The wire protocol\<close>

lemma unat_byte: "n < 256 \<Longrightarrow> unat (of_nat n :: 8 word) = n"
  by (simp add: unsigned_of_nat take_bit_nat_eq_self)

lemma unat_byte_add:
  "numeral k + n < (256::nat) \<Longrightarrow> unat (numeral k + of_nat n :: 8 word) = numeral k + n"
  using unat_byte[of "numeral k + n"] by simp

lemma bytes4_sum:
  fixes n :: nat
  shows "n mod 256 + (256 * (n div 256 mod 256) +
        (65536 * (n div 65536 mod 256) + 16777216 * (n div 16777216))) = n"
proof -
  have a: "n div 65536 = n div 256 div 256" "n div 16777216 = n div 256 div 256 div 256"
    by (simp_all add: div_mult2_eq)
  show ?thesis unfolding a
    using div_mult_mod_eq[of n 256] div_mult_mod_eq[of "n div 256" 256]
      div_mult_mod_eq[of "n div 256 div 256" 256]
    by linarith
qed

lemma cp3_sum:
  fixes c :: nat
  shows "c div 4096 * 4096 + c div 64 mod 64 * 64 + c mod 64 = c"
proof -
  have a: "c div 4096 = c div 64 div 64"
    by (simp add: div_mult2_eq)
  show ?thesis unfolding a
    using div_mult_mod_eq[of c 64] div_mult_mod_eq[of "c div 64" 64]
    by linarith
qed

lemma cp4_sum:
  fixes c :: nat
  shows "c div 262144 * 262144 + c div 4096 mod 64 * 4096 + c div 64 mod 64 * 64 + c mod 64 = c"
proof -
  have a: "c div 4096 = c div 64 div 64" "c div 262144 = c div 64 div 64 div 64"
    by (simp_all add: div_mult2_eq)
  show ?thesis unfolding a
    using div_mult_mod_eq[of c 64] div_mult_mod_eq[of "c div 64" 64]
      div_mult_mod_eq[of "c div 64 div 64" 64]
    by linarith
qed

lemma encode_cp_nonempty: "encode_cp c = Inr bs \<Longrightarrow> bs \<noteq> []"
  by (auto simp: encode_cp_def split: if_splits)

lemma decode_encode_cp:
  assumes "encode_cp c = Inr bs"
  shows "decode_cp (bs @ r) = Some (c, r)"
proof -
  consider (a) "c < 0x80" | (b) "0x80 \<le> c" "c < 0x800" | (c) "0x800 \<le> c" "c < 0x10000"
    | (d) "0x10000 \<le> c" "c < 0x110000" | (e) "0x110000 \<le> c"
    by linarith
  then show ?thesis
  proof cases
    case a
    then show ?thesis using assms
      by (auto simp: encode_cp_def decode_cp_def unat_byte)
  next
    case b
    then have "c div 64 < 32" "c div 64 \<ge> 2" by auto
    then show ?thesis using assms b
      by (auto simp: encode_cp_def decode_cp_def is_cont_def unat_byte unat_byte_add Let_def)
  next
    case c
    then have "c div 4096 < 16" by auto
    then show ?thesis using assms c cp3_sum[of c]
      by (auto simp: encode_cp_def decode_cp_def is_cont_def unat_byte unat_byte_add Let_def split: if_splits)
  next
    case d
    then have "c div 262144 < 5" by auto
    then show ?thesis using assms d cp4_sum[of c]
      by (auto simp: encode_cp_def decode_cp_def is_cont_def unat_byte unat_byte_add Let_def split: if_splits)
  next
    case e
    then show ?thesis using assms by (auto simp: encode_cp_def)
  qed
qed

lemma utf8_roundtrip: "utf8_encode cs = Inr bs \<Longrightarrow> utf8_decode bs = Some cs"
proof (induction cs arbitrary: bs)
  case Nil
  then show ?case by (simp add: utf8_decode.simps)
next
  case (Cons c cs)
  from Cons.prems obtain b1 rest where e: "encode_cp c = Inr b1" and r: "utf8_encode cs = Inr rest"
    and bs: "bs = b1 @ rest"
    by (auto split: sum.splits)
  have ne: "bs \<noteq> []" using encode_cp_nonempty[OF e] bs by simp
  have "utf8_decode rest = Some cs" using Cons.IH[OF r] .
  then show ?case
    using ne decode_encode_cp[OF e, of rest] bs
    by (subst utf8_decode.simps) simp
qed

lemma from_to_bytes4: "n < 4294967296 \<Longrightarrow> from_bytes4 bo (to_bytes4 bo n) = n"
  using bytes4_sum[of n] by (cases bo) (simp_all add: from_bytes4_def to_bytes4_def unat_byte unat_byte_add Let_def)

lemma length_to_bytes4: "length (to_bytes4 bo n) = 4"
  by (cases bo) (simp_all add: to_bytes4_def Let_def)

lemma frame_message_eq:
  "frame_message bo b =
     (if length b + 9 < 4294967296
      then Inr (2 # to_bytes4 bo (length b + 9) @ to_bytes4 bo (length b) @ b)
      else Inl OverflowError)"
  by (auto simp: frame_message_def get_length_bytes_def length_to_bytes4 Let_def add.commute)

lemma decode_frame:
  assumes "utf8_encode c = Inr b" "length b + 9 < 4294967296"
  shows "decode_message bo (2 # to_bytes4 bo (length b + 9) @ to_bytes4 bo (length b) @ b) = Some c"
  using assms
  by (simp add: decode_message_def length_to_bytes4 from_to_bytes4 utf8_roundtrip Let_def)

lemma send_cmd_cases:
  "send_cmd s c w = (r, w') \<Longrightarrow>
     wire w' = wire w \<or>
     (\<exists>b m n. utf8_encode c = Inr b \<and> frame_message (byte_order s) b = Inr m
        \<and> sock_send s (attempts w) m = Inr n \<and> r = Inr (n = length m)
        \<and> wire w' = wire w @ [(m, n)])"
  by (auto simp: send_cmd_def Let_def split: sum.splits if_splits)

text \<open>
  C1. For a command \<open>c\<close> whose UTF-8 encoding \<open>b\<close> fits a four-byte length, on an open
  connection whose socket answers, \<^verbatim>\<open>send_cmd\<close> builds and offers exactly one message:
  the magic byte 2, four bytes in the byte order of the machine holding the length of
  \<open>b\<close> plus nine (the length of the content plus five), four bytes holding the length of
  \<open>b\<close>, then \<open>b\<close>; and it answers whether all of it was accepted. Conversely, whatever
  \<^verbatim>\<open>send_cmd\<close> adds to the wire is that message: the length read back from offset 1 is
  the length of the content (all that follows offset 5) plus five, the length read back
  from offset 5 is the byte length of the command, and decoding it gives \<open>c\<close> back.
\<close>

theorem send_cmd_message_roundtrip:
  "(\<forall>b n. utf8_encode c = Inr b \<longrightarrow> length b + 9 < 4294967296 \<longrightarrow>
            connect_ok s (attempts w) \<longrightarrow>
            sock_send s (attempts w)
              (2 # to_bytes4 (byte_order s) (length b + 9)
                 @ to_bytes4 (byte_order s) (length b) @ b) = Inr n \<longrightarrow>
          send_cmd s c w =
            (Inr (n = length b + 9),
             w\<lparr>attempts := attempts w + 1,
               wire := wire w @ [(2 # to_bytes4 (byte_order s) (length b + 9)
                                    @ to_bytes4 (byte_order s) (length b) @ b, n)]\<rparr>))
   \<and> (\<forall>r w'. send_cmd s c w = (r, w') \<longrightarrow> wire w' \<noteq> wire w \<longrightarrow>
          (\<exists>b m n. utf8_encode c = Inr b \<and> wire w' = wire w @ [(m, n)]
             \<and> m = 2 # to_bytes4 (byte_order s) (length b + 9)
                     @ to_bytes4 (byte_order s) (length b) @ b
             \<and> from_bytes4 (byte_order s) (take 4 (drop 1 m)) = length (drop 5 m) + 5
             \<and> from_bytes4 (byte_order s) (take 4 (drop 5 m)) = length b
             \<and> drop 9 m = b
             \<and> decode_message (byte_order s) m = Some c))"
proof (intro conjI allI impI)
  fix b n
  assume e: "utf8_encode c = Inr b" and len: "length b + 9 < 4294967296"
    and conn: "connect_ok s (attempts w)"
    and sock: "sock_send s (attempts w)
              (2 # to_bytes4 (byte_order s) (length b + 9)
                 @ to_bytes4 (byte_order s) (length b) @ b) = Inr n"
  show "send_cmd s c w =
            (Inr (n = length b + 9),
             w\<lparr>attempts := attempts w + 1,
               wire := wire w @ [(2 # to_bytes4 (byte_order s) (length b + 9)
                                    @ to_bytes4 (byte_order s) (length b) @ b, n)]\<rparr>)"
    using e len conn sock
    by (auto simp: send_cmd_def Let_def frame_message_eq length_to_bytes4)
next
  fix r w'
  assume run: "send_cmd s c w = (r, w')" and ne: "wire w' \<noteq> wire w"
  from send_cmd_cases[OF run] ne
  obtain b m n where e: "utf8_encode c = Inr b"
    and f: "frame_message (byte_order s) b = Inr m"
    and w: "wire w' = wire w @ [(m, n)]"
    by blast
  from f have len: "length b + 9 < 4294967296"
    and m: "m = 2 # to_bytes4 (byte_order s) (length b + 9) @ to_bytes4 (byte_order s) (length b) @ b"
    by (simp_all add: frame_message_eq split: if_splits)
  have t: "from_bytes4 (byte_order s) (take 4 (drop 1 m)) = length (drop 5 m) + 5"
    using len by (simp add: m length_to_bytes4 from_to_bytes4)
  have l: "from_bytes4 (byte_order s) (take 4 (drop 5 m)) = length b"
    using len by (simp add: m length_to_bytes4 from_to_bytes4)
  have d: "drop 9 m = b"
    by (simp add: m length_to_bytes4)
  have dm: "decode_message (byte_order s) m = Some c"
    unfolding m using e len by (rule decode_frame)
  show "\<exists>b m n. utf8_encode c = Inr b \<and> wire w' = wire w @ [(m, n)]
             \<and> m = 2 # to_bytes4 (byte_order s) (length b + 9)
                     @ to_bytes4 (byte_order s) (length b) @ b
             \<and> from_bytes4 (byte_order s) (take 4 (drop 1 m)) = length (drop 5 m) + 5
             \<and> from_bytes4 (byte_order s) (take 4 (drop 5 m)) = length b
             \<and> drop 9 m = b
             \<and> decode_message (byte_order s) m = Some c"
    using e w m t l d dm by blast
qed

lemma utf8_encode_nop: "utf8_encode (ascii ''nop'') = Inr [110, 111, 112]"
  by (simp add: ascii_def encode_cp_def)

lemma frame_nop:
  "frame_message Little [110, 111, 112] = Inr [2, 12, 0, 0, 0, 3, 0, 0, 0, 110, 111, 112]"
  by (simp add: frame_message_eq to_bytes4_def)


lemma to_bytes4_little_12: "to_bytes4 Little 12 = [12, 0, 0, 0]"
  by (simp add: to_bytes4_def)

lemma to_bytes4_little_3: "to_bytes4 Little 3 = [3, 0, 0, 0]"
  by (simp add: to_bytes4_def)

theorem send_cmd_message_roundtrip_witness:
  "send_cmd loopback (ascii ''nop'') world0
     = (Inr True, \<lparr>attempts = 1,
                   wire = [([2, 12, 0, 0, 0, 3, 0, 0, 0, 110, 111, 112], 12)], ticks = []\<rparr>)
   \<and> decode_message Little [2, 12, 0, 0, 0, 3, 0, 0, 0, 110, 111, 112] = Some (ascii ''nop'')"
proof -
  have len3: "length [110, 111, 112 :: byte] = 3"
    by simp
  have l: "length [110, 111, 112 :: byte] + 9 < 4294967296"
    by simp
  have c: "connect_ok loopback (attempts world0)"
    by (simp add: loopback_def)
  have k: "sock_send loopback (attempts world0)
             (2 # to_bytes4 (byte_order loopback) (length [110, 111, 112 :: byte] + 9)
                @ to_bytes4 (byte_order loopback) (length [110, 111, 112 :: byte])
                @ [110, 111, 112]) = Inr 12"
    by (simp add: loopback_def length_to_bytes4)
  note built = send_cmd_message_roundtrip[of "ascii ''nop''" loopback world0,
      THEN conjunct1, rule_format, OF utf8_encode_nop l c k]
  have run: "send_cmd loopback (ascii ''nop'') world0
     = (Inr True, \<lparr>attempts = 1,
                   wire = [([2, 12, 0, 0, 0, 3, 0, 0, 0, 110, 111, 112], 12)], ticks = []\<rparr>)"
    using built unfolding len3
    by (simp add: loopback_def world0_def to_bytes4_little_12 to_bytes4_little_3)
  have ne: "wire \<lparr>attempts = 1,
      wire = [([2, 12, 0, 0, 0, 3, 0, 0, 0, 110, 111, 112 :: byte], 12 :: nat)], ticks = []\<rparr>
      \<noteq> wire world0"
    by (simp add: world0_def)
  note emitted = send_cmd_message_roundtrip[of "ascii ''nop''" loopback world0,
      THEN conjunct2, rule_format, OF run ne]
  have "decode_message Little [2, 12, 0, 0, 0, 3, 0, 0, 0, 110, 111, 112] = Some (ascii ''nop'')"
    using emitted by (auto simp: world0_def loopback_def)
  then show ?thesis
    using run by simp
qed

text \<open>
  C9. Once the command is encoded, the connection is open and the message is framed,
  \<^verbatim>\<open>send_cmd\<close> answers \<^verbatim>\<open>True\<close> exactly when the number of bytes the socket accepted
  is the length of the whole message; on a short write it answers \<^verbatim>\<open>False\<close>. The
  message is recorded on the wire with the number of bytes accepted.
\<close>

theorem send_cmd_reports_full_write:
  assumes "utf8_encode cmd = Inr b" and "connect_ok s (attempts w)"
    and "frame_message (byte_order s) b = Inr m" and "sock_send s (attempts w) m = Inr n"
  shows "fst (send_cmd s cmd w) = Inr (n = length m)
     \<and> (n < length m \<longrightarrow> fst (send_cmd s cmd w) = Inr False)
     \<and> wire (snd (send_cmd s cmd w)) = wire w @ [(m, n)]"
  using assms by (simp add: send_cmd_def Let_def)

theorem send_cmd_reports_full_write_witness:
  "fst (send_cmd loopback (ascii ''nop'') world0) = Inr True
   \<and> fst (send_cmd (loopback\<lparr>sock_send := (\<lambda>k m. Inr 5)\<rparr>) (ascii ''nop'') world0) = Inr False"
proof -
  have a: "connect_ok loopback (attempts world0)"
    by (simp add: loopback_def)
  have f: "frame_message (byte_order loopback) [110, 111, 112]
             = Inr [2, 12, 0, 0, 0, 3, 0, 0, 0, 110, 111, 112]"
    using frame_nop by (simp add: loopback_def)
  have n: "sock_send loopback (attempts world0) [2, 12, 0, 0, 0, 3, 0, 0, 0, 110, 111, 112] = Inr 12"
    by (simp add: loopback_def)
  have a': "connect_ok (loopback\<lparr>sock_send := (\<lambda>k m. Inr 5)\<rparr>) (attempts world0)"
    by (simp add: loopback_def)
  have f': "frame_message (byte_order (loopback\<lparr>sock_send := (\<lambda>k m. Inr 5)\<rparr>)) [110, 111, 112]
             = Inr [2, 12, 0, 0, 0, 3, 0, 0, 0, 110, 111, 112]"
    using frame_nop by (simp add: loopback_def)
  have n': "sock_send (loopback\<lparr>sock_send := (\<lambda>k m. Inr 5)\<rparr>) (attempts world0)
              [2, 12, 0, 0, 0, 3, 0, 0, 0, 110, 111, 112] = Inr 5"
    by simp
  show ?thesis
    using send_cmd_reports_full_write[OF utf8_encode_nop a f n]
      send_cmd_reports_full_write[OF utf8_encode_nop a' f' n']
    by simp
qed

section \<open>Fixed-speed scrolling\<close>

lemma scroll_once_ok:
  assumes "step_message s step = Inr m" and "connect_ok s (attempts w)"
    and "sock_send s (attempts w) m = Inr n"
  shows "scroll_once s step d w =
           (Inr (), w\<lparr>attempts := attempts w + 1, wire := wire w @ [(m, n)],
                      ticks := ticks w @ [(step, d)]\<rparr>)"
  using assms
  by (auto simp: scroll_once_def send_keys_def send_cmd_def step_message_def Let_def
      split: sum.splits)

lemma fixed_loop_ok:
  assumes m: "step_message s step = Inr m" and conn: "\<And>k. connect_ok s k"
    and sock: "\<And>k. \<exists>a. sock_send s k m = Inr a"
  shows "\<exists>w'. fixed_loop s step d t js w = (Inr (), w')
           \<and> ticks w' = ticks w @ map (\<lambda>i. (step, d * (if i < t - 1 then 1 else 0))) js
           \<and> map fst (wire w') = map fst (wire w) @ replicate (length js) m"
proof (induction js arbitrary: w)
  case Nil
  show ?case by simp
next
  case (Cons j js)
  obtain n where n: "sock_send s (attempts w) m = Inr n"
    using sock by blast
  let ?w1 = "w\<lparr>attempts := attempts w + 1, wire := wire w @ [(m, n)],
                ticks := ticks w @ [(step, d * (if j < t - 1 then 1 else 0))]\<rparr>"
  have one: "scroll_once s step (d * (if j < t - 1 then 1 else 0)) w = (Inr (), ?w1)"
    using scroll_once_ok[OF m conn n] .
  from Cons.IH[of ?w1] obtain w' where
    "fixed_loop s step d t js ?w1 = (Inr (), w')"
    "ticks w' = ticks ?w1 @ map (\<lambda>i. (step, d * (if i < t - 1 then 1 else 0))) js"
    "map fst (wire w') = map fst (wire ?w1) @ replicate (length js) m"
    by blast
  then show ?case
    using one by (simp add: replicate_app_Cons_same)
qed

lemma length_upto_nat: "length [0..t - 1] = nat t"
  by simp

lemma main_fixed_run:
  assumes fx: "speed r > 0 \<or> duration_ms r / 1000 < 1 / 1000" and ms: "maxscroll r \<noteq> 0"
    and nl: "n_lines r = Inr n"
    and m: "step_message s ((if float_pos (amount r) then 1 else - 1) * speed r) = Inr m"
    and conn: "\<And>k. connect_ok s k" and sock: "\<And>k. \<exists>a. sock_send s k m = Inr a"
  shows "\<exists>w'. main s r w = (Inr (), w')
     \<and> ticks w' = ticks w @
          map (\<lambda>i. ((if float_pos (amount r) then 1 else - 1) * speed r,
                     duration_ms r / 1000
                       * (if i < n div max (speed r) 1 - 1 then 1 else 0)))
              [0..n div max (speed r) 1 - 1]
     \<and> map fst (wire w') = map fst (wire w)
          @ replicate (nat (n div max (speed r) 1)) m"
proof -
  let ?t = "n div max (speed r) 1"
  let ?step = "(if float_pos (amount r) then 1 else - 1) * speed r"
  have run: "main s r w = fixed_loop s ?step (duration_ms r / 1000) ?t [0..?t - 1] w"
    using fx ms nl by (simp add: main_def Let_def)
  have len: "length [0..?t - 1] = nat ?t"
    by simp
  show ?thesis
    unfolding run using fixed_loop_ok[OF m conn sock, of "duration_ms r / 1000" ?t "[0..?t - 1]" w]
    unfolding len by simp
qed

lemma step_message_decode:
  assumes "step_message s step = Inr m"
  shows "decode_message (byte_order s) m
           = Some (ascii ''execute-keys -client '' @ client s @ ascii '' '' @ scroll_keys step)"
proof -
  from assms obtain b where
    e: "utf8_encode (ascii ''execute-keys -client '' @ client s @ ascii '' '' @ scroll_keys step)
          = Inr b"
    and f: "frame_message (byte_order s) b = Inr m"
    by (auto simp: step_message_def split: sum.splits)
  from f have len: "length b + 9 < 4294967296"
    and m: "m = 2 # to_bytes4 (byte_order s) (length b + 9)
                  @ to_bytes4 (byte_order s) (length b) @ b"
    by (simp_all add: frame_message_eq split: if_splits)
  show ?thesis unfolding m using e len by (rule decode_frame)
qed

text \<open>
  C5. On the fixed-speed path with a speed \<open>s\<close> of 1 at least, \<open>n\<close> lines planned and a
  socket that takes every message, \<^verbatim>\<open>main\<close> ends without an error after exactly
  \<open>n div s\<close> ticks (none when that is negative), each with a step of magnitude \<open>s\<close> in the
  direction of the amount, each putting on the wire the same message, which decodes to
  the \<^verbatim>\<open>execute-keys\<close> command with the keys of that step. The lines sent, \<open>s\<close> times
  the number of ticks, do not exceed \<open>n\<close> when \<open>n\<close> is not negative; 10 lines at speed 3
  make 3 ticks.
\<close>

theorem fixed_pacer_ticks:
  assumes sp: "1 \<le> speed r" and ms: "maxscroll r \<noteq> 0" and nl: "n_lines r = Inr n"
    and m: "step_message s ((if float_pos (amount r) then 1 else - 1) * speed r) = Inr m"
    and conn: "\<And>k. connect_ok s k" and sock: "\<And>k. \<exists>a. sock_send s k m = Inr a"
  shows "\<exists>w'. main s r w = (Inr (), w')
     \<and> map fst (ticks w') = map fst (ticks w)
          @ replicate (nat (n div speed r)) ((if float_pos (amount r) then 1 else - 1) * speed r)
     \<and> map fst (wire w') = map fst (wire w) @ replicate (nat (n div speed r)) m
     \<and> \<bar>(if float_pos (amount r) then 1 else - 1) * speed r\<bar> = speed r
     \<and> decode_message (byte_order s) m
         = Some (ascii ''execute-keys -client '' @ client s @ ascii '' ''
                 @ scroll_keys ((if float_pos (amount r) then 1 else - 1) * speed r))
     \<and> (0 \<le> n \<longrightarrow> speed r * int (nat (n div speed r)) \<le> n)
     \<and> (n = 10 \<and> speed r = 3 \<longrightarrow> nat (n div speed r) = 3)"
proof -
  have mx: "max (speed r) 1 = speed r"
    using sp by simp
  have fx: "speed r > 0 \<or> duration_ms r / 1000 < 1 / 1000"
    using sp by simp
  from main_fixed_run[OF fx ms nl m conn sock, of w] obtain w' where
    run: "main s r w = (Inr (), w')"
    and t: "ticks w' = ticks w @
          map (\<lambda>i. ((if float_pos (amount r) then 1 else - 1) * speed r,
                     duration_ms r / 1000 * (if i < n div speed r - 1 then 1 else 0)))
              [0..n div speed r - 1]"
    and wi: "map fst (wire w') = map fst (wire w) @ replicate (nat (n div speed r)) m"
    unfolding mx by blast
  have t': "map fst (ticks w') = map fst (ticks w)
          @ replicate (nat (n div speed r)) ((if float_pos (amount r) then 1 else - 1) * speed r)"
    unfolding t by (simp add: comp_def map_replicate_const)
  have mag: "\<bar>(if float_pos (amount r) then 1 else - 1) * speed r\<bar> = speed r"
    using sp by simp
  have le: "0 \<le> n \<longrightarrow> speed r * int (nat (n div speed r)) \<le> n"
  proof
    assume n: "0 \<le> n"
    then have d0: "0 \<le> n div speed r"
      using sp by (simp add: pos_imp_zdiv_nonneg_iff)
    have "0 \<le> n mod speed r"
      using sp by simp
    then have "speed r * (n div speed r) \<le> n"
      using mult_div_mod_eq[of "speed r" n] by linarith
    then show "speed r * int (nat (n div speed r)) \<le> n"
      using d0 by simp
  qed
  have ex: "n = 10 \<and> speed r = 3 \<longrightarrow> nat (n div speed r) = 3"
    by simp
  show ?thesis
    using run t' wi mag step_message_decode[OF m] le ex by blast
qed

lemma str_nat_digit: "n < 10 \<Longrightarrow> str_nat n = [48 + n]"
  by (subst str_nat.simps) simp

lemma utf8_encode_ascii:
  "list_all (\<lambda>c. c < 128) cs \<Longrightarrow> utf8_encode cs = Inr (map of_nat cs)"
  by (induction cs) (simp_all add: encode_cp_def)

lemma step_message_loopback_digit:
  assumes "\<bar>step\<bar> < 10"
  shows "\<exists>m. step_message loopback step = Inr m"
proof -
  define cmd where
    "cmd = ascii ''execute-keys -client '' @ client loopback @ ascii '' '' @ scroll_keys step"
  have d: "nat \<bar>step\<bar> < 10" using assms by simp
  have a: "list_all (\<lambda>c. c < 128) cmd"
    using d assms
    by (auto simp: cmd_def loopback_def scroll_keys_def str_nat_digit ascii_def Let_def)
  have l: "length cmd = 34"
    using d by (simp add: cmd_def loopback_def scroll_keys_def str_nat_digit ascii_def Let_def)
  have e: "utf8_encode cmd = Inr (map of_nat cmd)"
    using a by (rule utf8_encode_ascii)
  have "step_message loopback step = frame_message (byte_order loopback) (map of_nat cmd)"
    unfolding step_message_def cmd_def[symmetric] e by simp
  then show ?thesis
    by (simp add: frame_message_eq l)
qed

lemma round_double_ten: "round_double 10 = Finite 10"
  by (rule round_double_exact[where e = 3 and k = "10 * 2 ^ 49"]) (simp_all add: pow2_def)

lemma round_double_two: "round_double 2 = Finite 2"
  by (rule round_double_exact[where e = 1 and k = "2 ^ 52"]) (simp_all add: pow2_def)

theorem fixed_pacer_ticks_witness:
  "map fst (ticks (snd (main loopback
      \<lparr>cursor_line = 1, line_count = 100, window_height = 12, kak_count = 0,
        amount = Finite 1, duration_ms = 10, speed = 3\<rparr> world0))) = [3, 3, 3]"
proof -
  let ?r = "\<lparr>cursor_line = 1, line_count = 100, window_height = 12, kak_count = 0,
        amount = Finite 1, duration_ms = 10, speed = 3\<rparr> :: request"
  obtain m where m0: "step_message loopback 3 = Inr m"
    using step_message_loopback_digit[of 3] by auto
  have m: "step_message loopback ((if float_pos (amount ?r) then 1 else - 1) * speed ?r) = Inr m"
    using m0 by (simp add: float_pos_def)
  have sp: "1 \<le> speed ?r" by simp
  have ms: "maxscroll ?r \<noteq> 0" by (simp add: maxscroll_def float_pos_def)
  have conn: "\<And>k. connect_ok loopback k" by (simp add: loopback_def)
  have sock: "\<And>k. \<exists>a. sock_send loopback k m = Inr a" by (simp add: loopback_def)
  have p: "line_product ?r = Inr (Finite 10)"
    using line_product_plain[of ?r 1] round_double_one round_double_ten by simp
  have n: "n_lines ?r = Inr 10"
    by (simp add: n_lines_def p int_of_float_def maxscroll_def float_pos_def)
  from fixed_pacer_ticks[OF sp ms n m conn sock, of world0]
  show ?thesis
    by (auto simp: world0_def numeral_3_eq_3 float_pos_def)
qed

text \<open>
  C4 fails on the code. Line 119 divides by \<^verbatim>\<open>max(speed, 1)\<close>, but line 121 passes
  \<^verbatim>\<open>sign * speed\<close> to \<^verbatim>\<open>scroll_once\<close>. With a speed of 0 and a tick below one
  millisecond (amount 1.0, window of 4 lines, so 2 lines planned) the program makes 2
  ticks whose step is 0, and the command on the wire is \<^verbatim>\<open>0k0vk\<close> each time: magnitude
  0, not 1, and the keys of the upward direction although the amount is positive.
\<close>

theorem fixed_path_speed_zero_sends_zero_steps:
  "ticks (snd (main loopback
      \<lparr>cursor_line = 1, line_count = 100, window_height = 4, kak_count = 0,
        amount = Finite 1, duration_ms = 0, speed = 0\<rparr> world0)) = [(0, 0), (0, 0)]
   \<and> map (decode_message Little \<circ> fst) (wire (snd (main loopback
      \<lparr>cursor_line = 1, line_count = 100, window_height = 4, kak_count = 0,
        amount = Finite 1, duration_ms = 0, speed = 0\<rparr> world0)))
     = [Some (ascii ''execute-keys -client client0 0k0vk''),
        Some (ascii ''execute-keys -client client0 0k0vk'')]"
proof -
  let ?r = "\<lparr>cursor_line = 1, line_count = 100, window_height = 4, kak_count = 0,
        amount = Finite 1, duration_ms = 0, speed = 0\<rparr> :: request"
  obtain m where m0: "step_message loopback 0 = Inr m"
    using step_message_loopback_digit[of 0] by auto
  have m: "step_message loopback ((if float_pos (amount ?r) then 1 else - 1) * speed ?r) = Inr m"
    using m0 by simp
  have fx: "speed ?r > 0 \<or> duration_ms ?r / 1000 < 1 / 1000" by simp
  have ms: "maxscroll ?r \<noteq> 0" by (simp add: maxscroll_def float_pos_def)
  have conn: "\<And>k. connect_ok loopback k" by (simp add: loopback_def)
  have sock: "\<And>k. \<exists>a. sock_send loopback k m = Inr a" by (simp add: loopback_def)
  have p: "line_product ?r = Inr (Finite 2)"
    using line_product_plain[of ?r 1] round_double_one round_double_two by simp
  have n: "n_lines ?r = Inr 2"
    by (simp add: n_lines_def p int_of_float_def maxscroll_def float_pos_def)
  have d: "decode_message Little m = Some (ascii ''execute-keys -client client0 0k0vk'')"
    using step_message_decode[OF m0]
    by (simp add: loopback_def scroll_keys_def str_nat_digit ascii_def)
  from main_fixed_run[OF fx ms n m conn sock, of world0] obtain w' where
    run: "main loopback ?r world0 = (Inr (), w')"
    and t: "ticks w' = ticks world0 @
          map (\<lambda>i. ((if float_pos (amount ?r) then 1 else - 1) * speed ?r,
                     duration_ms ?r / 1000
                       * (if i < 2 div max (speed ?r) 1 - 1 then 1 else 0)))
              [0..2 div max (speed ?r) 1 - 1]"
    and wi: "map fst (wire w') = map fst (wire world0)
          @ replicate (nat (2 div max (speed ?r) 1)) m"
    by blast
  have t2: "ticks w' = [(0, 0), (0, 0)]"
    using t by (simp add: world0_def upto.simps)
  have w2: "map fst (wire w') = [m, m]"
    using wi by (simp add: world0_def numeral_2_eq_2)
  have "map (decode_message Little \<circ> fst) (wire w')
          = map (decode_message Little) (map fst (wire w'))"
    by simp
  also have "\<dots> = [Some (ascii ''execute-keys -client client0 0k0vk''),
        Some (ascii ''execute-keys -client client0 0k0vk'')]"
    unfolding w2 using d by simp
  finally show ?thesis
    using run t2 by simp
qed

theorem n_lines_truncates_witness:
  "n_lines \<lparr>cursor_line = 1, line_count = 100, window_height = 9, kak_count = 0,
             amount = Finite (1 / 4), duration_ms = 10, speed = 1\<rparr> = Inr 1
   \<and> ticks (snd (main loopback
        \<lparr>cursor_line = 1, line_count = 100, window_height = 9, kak_count = 0,
          amount = Finite (1 / 4), duration_ms = 10, speed = 1\<rparr> world0)) = [(1, 0)]"
proof -
  let ?r = "\<lparr>cursor_line = 1, line_count = 100, window_height = 9, kak_count = 0,
             amount = Finite (1 / 4), duration_ms = 10, speed = 1\<rparr> :: request"
  have ms: "maxscroll ?r \<noteq> 0"
    by (simp add: maxscroll_def float_pos_def)
  note t = n_lines_truncates[OF ms, of loopback world0]
  have n: "n_lines ?r = Inr 1"
    using t[THEN conjunct1, rule_format, OF line_product_quarter_of_nine]
    by (simp add: floor_seven_quarters maxscroll_def float_pos_def)
  have run: "main loopback ?r world0 = fixed_loop loopback 1 (1 / 100) 1 [0..0] world0"
    using t[THEN conjunct2, THEN conjunct2, THEN conjunct2, THEN conjunct1, rule_format, OF n]
    by (simp add: float_pos_def)
  obtain m where m: "step_message loopback 1 = Inr m"
    using step_message_loopback_digit[of 1] by auto
  have conn: "\<And>k. connect_ok loopback k" by (simp add: loopback_def)
  have sock: "\<And>k. \<exists>a. sock_send loopback k m = Inr a" by (simp add: loopback_def)
  from fixed_loop_ok[OF m conn sock, of "1 / 100" 1 "[0..0]" world0]
  have "ticks (snd (fixed_loop loopback 1 (1 / 100) 1 [0..0] world0)) = [(1, 0)]"
    by (auto simp: world0_def upto.simps)
  then show ?thesis
    using n run by simp
qed

section \<open>Inertial scrolling\<close>

lemma inertial_loop_ok:
  assumes m: "step_message s step = Inr m" and conn: "\<And>k. connect_ok s k"
    and sock: "\<And>k. \<exists>a. sock_send s k m = Inr a"
    and nz: "\<And>i. a \<le> i \<Longrightarrow> i \<le> b \<Longrightarrow> v1 - of_int i * dv \<noteq> 0"
  shows "\<exists>w'. inertial_loop s step n dv [a..b] (v1 - of_int a * dv) w = (Inr (), w')
           \<and> ticks w' = ticks w @
               map (\<lambda>i. (step, 1 / (v1 - of_int i * dv) * (if i < n - 1 then 1 else 0))) [a..b]
           \<and> map fst (wire w') = map fst (wire w) @ replicate (length [a..b]) m"
  using nz
proof (induction "nat (b + 1 - a)" arbitrary: a w)
  case 0
  then have "b < a" by simp
  then show ?case by simp
next
  case (Suc k)
  then have ab: "a \<le> b" by linarith
  have up: "[a..b] = a # [a + 1..b]"
    using ab by (rule upto_rec1)
  have va: "v1 - of_int a * dv \<noteq> 0"
    using Suc.prems[of a] ab by simp
  obtain c where c: "sock_send s (attempts w) m = Inr c"
    using sock by blast
  let ?h = "1 / (v1 - of_int a * dv) * (if a < n - 1 then 1 else 0)"
  let ?w1 = "w\<lparr>attempts := attempts w + 1, wire := wire w @ [(m, c)],
                ticks := ticks w @ [(step, ?h)]\<rparr>"
  have one: "scroll_once s step ?h w = (Inr (), ?w1)"
    using scroll_once_ok[OF m conn c] .
  have k: "k = nat (b + 1 - (a + 1))"
    using Suc.hyps(2) by linarith
  have nz': "\<And>i. a + 1 \<le> i \<Longrightarrow> i \<le> b \<Longrightarrow> v1 - of_int i * dv \<noteq> 0"
    using Suc.prems by simp
  from Suc.hyps(1)[OF k nz', of ?w1] obtain w' where
    r: "inertial_loop s step n dv [a + 1..b] (v1 - of_int (a + 1) * dv) ?w1 = (Inr (), w')"
    and t: "ticks w' = ticks ?w1 @
               map (\<lambda>i. (step, 1 / (v1 - of_int i * dv) * (if i < n - 1 then 1 else 0)))
                 [a + 1..b]"
    and wi: "map fst (wire w') = map fst (wire ?w1) @ replicate (length [a + 1..b]) m"
    by blast
  have next_v: "v1 - of_int a * dv - dv = v1 - of_int (a + 1) * dv"
    by (simp add: algebra_simps)
  have run: "inertial_loop s step n dv [a..b] (v1 - of_int a * dv) w = (Inr (), w')"
    unfolding up using va one r by (simp add: float_div_def next_v)
  show ?case
    unfolding up using run[unfolded up] t wi by (simp add: replicate_app_Cons_same)
qed

lemma harmonic_from2_pos:
  assumes "2 \<le> n"
  shows "0 < harmonic_from2 n"
proof -
  have up: "[2..n] = 2 # [3..n]"
    using upto_rec1[of 2 n] assms by simp
  have "0 \<le> sum_list (map (\<lambda>x. 1 / rat_of_int x) [3..n])"
    by (rule sum_list_nonneg) auto
  then show ?thesis
    unfolding harmonic_from2_def up by simp
qed

lemma sum_list_upto_reflect:
  fixes f :: "int \<Rightarrow> rat"
  shows "sum_list (map (\<lambda>i. f (c - i)) [a..b]) = sum_list (map f [c - b..c - a])"
proof (induction "nat (b + 1 - a)" arbitrary: a)
  case 0
  then have "b < a" by simp
  then show ?case by simp
next
  case (Suc k)
  then have ab: "a \<le> b" by linarith
  have up: "[a..b] = a # [a + 1..b]"
    using ab by (rule upto_rec1)
  have up2: "[c - b..c - a] = [c - b..c - (a + 1)] @ [c - a]"
    using upto_rec2[of "c - b" "c - a"] ab by (simp add: algebra_simps)
  have k: "k = nat (b + 1 - (a + 1))"
    using Suc.hyps(2) by linarith
  show ?case
    unfolding up up2 using Suc.hyps(1)[OF k] by simp
qed

lemma initial_velocity_eq:
  assumes "2 \<le> n" and "0 < d"
  shows "initial_velocity n d = Inr (of_int n * harmonic_from2 n / (of_int (n - 1) * d))"
    and "0 < of_int n * harmonic_from2 n / (of_int (n - 1) * d)"
proof -
  have "0 < rat_of_int (n - 1) * d"
    using assms by simp
  then have "rat_of_int (n - 1) * d \<noteq> 0"
    by (rule less_imp_neq[THEN not_sym])
  then show "initial_velocity n d = Inr (of_int n * harmonic_from2 n / (of_int (n - 1) * d))"
    unfolding initial_velocity_def float_div_def by (simp only: if_False)
  have "0 < rat_of_int n * harmonic_from2 n"
    using assms(1) harmonic_from2_pos[OF assms(1)] by simp
  then show "0 < of_int n * harmonic_from2 n / (of_int (n - 1) * d)"
    using \<open>0 < rat_of_int (n - 1) * d\<close> by simp
qed

lemma velocity_at:
  fixes v :: rat
  assumes "n \<noteq> 0"
  shows "v - of_int i * (v / of_int n) = v * of_int (n - i) / of_int n"
  using assms by (simp add: field_simps)

lemma velocity_at_pos:
  fixes v :: rat
  assumes "0 < v" and "0 < n" and "i < n"
  shows "0 < v - of_int i * (v / of_int n)"
proof -
  have "0 < v * rat_of_int (n - i) / rat_of_int n"
    using assms by simp
  then show ?thesis
    using velocity_at[of n v i] assms(2) by simp
qed

lemma inertial_scroll_run:
  assumes S: "2 \<le> \<bar>target\<bar>" and d: "0 < d"
    and v: "v = of_int \<bar>target\<bar> * harmonic_from2 \<bar>target\<bar> / (of_int (\<bar>target\<bar> - 1) * d)"
    and m: "step_message s (if target > 0 then 1 else - 1) = Inr m"
    and conn: "\<And>k. connect_ok s k" and sock: "\<And>k. \<exists>a. sock_send s k m = Inr a"
  shows "\<exists>w'. inertial_scroll s target d w = (Inr (), w')
     \<and> ticks w' = ticks w @
          map (\<lambda>i. (if target > 0 then 1 else - 1,
                     1 / (v - of_int i * (v / of_int \<bar>target\<bar>))
                       * (if i < \<bar>target\<bar> - 1 then 1 else 0)))
              [0..\<bar>target\<bar> - 1]
     \<and> map fst (wire w') = map fst (wire w) @ replicate (nat \<bar>target\<bar>) m"
proof -
  let ?n = "\<bar>target\<bar>"
  let ?step = "if target > 0 then 1 else - 1 :: int"
  have iv: "initial_velocity ?n d = Inr v" and vpos: "0 < v"
    using initial_velocity_eq[OF S d] v by simp_all
  have n0: "rat_of_int ?n \<noteq> 0" using S by simp
  have dv: "float_div v (of_int ?n) = Inr (v / of_int ?n)"
    using n0 by (simp add: float_div_def)
  have nz: "\<And>i. 0 \<le> i \<Longrightarrow> i \<le> ?n - 1 \<Longrightarrow> v - of_int i * (v / of_int ?n) \<noteq> 0"
  proof -
    fix i :: int assume "0 \<le> i" and "i \<le> ?n - 1"
    then have "0 < v - of_int i * (v / of_int ?n)"
      using velocity_at_pos[OF vpos, of ?n i] S by simp
    then show "v - of_int i * (v / of_int ?n) \<noteq> 0" by simp
  qed
  have run: "inertial_scroll s target d w
      = inertial_loop s ?step ?n (v / of_int ?n) [0..?n - 1] (v - of_int 0 * (v / of_int ?n)) w"
    by (simp only: inertial_scroll_def Let_def iv dv sum.case of_int_0 mult_zero_left diff_zero)
  have len: "length [0..?n - 1] = nat ?n"
    by simp
  show ?thesis
    unfolding run
    using inertial_loop_ok[OF m conn sock nz, of 0 "?n - 1" ?n w]
    unfolding len by simp
qed

lemma hold_increasing:
  fixes v :: rat
  assumes "0 < v" and "0 < n" and "0 \<le> i" and "i < j" and "j < n"
  shows "1 / (v - of_int i * (v / of_int n)) < 1 / (v - of_int j * (v / of_int n))"
proof -
  have pj: "0 < v - of_int j * (v / of_int n)"
    using velocity_at_pos[OF assms(1,2,5)] .
  have "v * rat_of_int (n - j) / rat_of_int n < v * rat_of_int (n - i) / rat_of_int n"
    using assms by (simp add: divide_strict_right_mono)
  then have "v - of_int j * (v / of_int n) < v - of_int i * (v / of_int n)"
    using velocity_at[of n v] assms(2) by simp
  then show ?thesis
    using pj by (simp add: frac_less2)
qed

lemma hold_sum:
  assumes S: "2 \<le> n" and d: "0 < d"
    and v: "v = of_int n * harmonic_from2 n / (of_int (n - 1) * d)"
  shows "sum_list (map (\<lambda>i. 1 / (v - of_int i * (v / of_int n))) [0..n - 2]) = of_int (n - 1) * d"
proof -
  have n0: "n \<noteq> 0" using S by simp
  have vpos: "0 < v" using initial_velocity_eq(2)[OF S d] v by simp
  have hpos: "0 < harmonic_from2 n" using harmonic_from2_pos[OF S] .
  have "sum_list (map (\<lambda>i. 1 / (v - of_int i * (v / of_int n))) [0..n - 2])
      = sum_list (map (\<lambda>i. (of_int n / v) * (1 / of_int (n - i))) [0..n - 2])"
  proof (rule arg_cong[where f = sum_list], rule map_cong[OF refl])
    fix i assume "i \<in> set [0..n - 2]"
    then have "rat_of_int (n - i) \<noteq> 0" by auto
    then show "1 / (v - of_int i * (v / of_int n)) = (of_int n / v) * (1 / of_int (n - i))"
      unfolding velocity_at[OF n0] using vpos n0 by (simp add: field_simps)
  qed
  also have "\<dots> = (of_int n / v) * sum_list (map (\<lambda>i. 1 / of_int (n - i)) [0..n - 2])"
    by (rule sum_list_const_mult)
  also have "sum_list (map (\<lambda>i. 1 / rat_of_int (n - i)) [0..n - 2])
      = sum_list (map (\<lambda>x. 1 / rat_of_int x) [n - (n - 2)..n - 0])"
    by (rule sum_list_upto_reflect)
  also have "\<dots> = harmonic_from2 n"
    by (simp add: harmonic_from2_def)
  also have "(of_int n / v) * harmonic_from2 n = of_int (n - 1) * d"
    unfolding v using hpos n0 S d by (simp add: field_simps)
  finally show ?thesis .
qed

lemma upto_snoc_last:
  assumes "2 \<le> n"
  shows "[0..n - 1] = [0..n - 2] @ [n - 1]"
proof -
  have "[0..n - 1] = [0..n - 1 - 1] @ [n - 1]"
    using assms by (intro upto_rec2) simp
  then show ?thesis by (simp add: algebra_simps)
qed

lemma harmonic_from2_3: "harmonic_from2 3 = 5 / 6"
  by (simp add: harmonic_from2_def upto.simps)

lemma harmonic_from2_5: "harmonic_from2 5 = 77 / 60"
  by (simp add: harmonic_from2_def upto.simps)


text \<open>
  C6, as the specification states it, fails: the velocity decreases from step to step,
  so the durations \<open>1 / v\<close> grow. For a target of 5 lines and a tick of 10 ms the five
  ticks are held for 12/1925, 3/385, 4/385, 6/385 and 0 seconds: the first four increase
  (and add up to 4/100).
\<close>

theorem inertial_holds_increase:
  "map snd (ticks (snd (inertial_scroll loopback 5 (1 / 100) world0)))
     = [12 / 1925, 3 / 385, 4 / 385, 6 / 385, 0]
   \<and> (12 / 1925 :: rat) < 3 / 385 \<and> (3 / 385 :: rat) < 4 / 385 \<and> (4 / 385 :: rat) < 6 / 385"
proof -
  obtain m where m: "step_message loopback (if (5::int) > 0 then 1 else - 1) = Inr m"
    using step_message_loopback_digit[of 1] by auto
  have v: "(1925 / 12 :: rat) = of_int \<bar>5\<bar> * harmonic_from2 \<bar>5\<bar> / (of_int (\<bar>5\<bar> - 1) * (1 / 100))"
    by (simp add: harmonic_from2_5)
  obtain w' where r: "inertial_scroll loopback 5 (1 / 100) world0 = (Inr (), w')"
    and t: "ticks w' = ticks world0 @
          map (\<lambda>i. (if (5::int) > 0 then 1 else - 1,
                     1 / (1925 / 12 - of_int i * ((1925 / 12) / of_int \<bar>5\<bar>))
                       * (if i < \<bar>5\<bar> - 1 then 1 else 0)))
              [0..\<bar>5\<bar> - 1]"
    using inertial_scroll_run[of 5 "1 / 100" "1925 / 12" loopback m world0, OF _ _ v m]
    by (auto simp: loopback_def)
  show ?thesis
    unfolding r using t by (simp add: world0_def upto.simps)
qed

text \<open>
  C6, amended. For a target of \<open>S\<close> lines, \<open>S\<close> at least 2, a positive tick duration \<open>d\<close>
  and a socket that takes every message, \<^verbatim>\<open>inertial_scroll\<close> ends without an error after
  \<open>S\<close> ticks of one line each. Tick \<open>i\<close> (from 0) is held for \<open>1 / v\<close> with
  \<open>v = v1 * (S - i) / S\<close> when \<open>i < S - 1\<close>, and the last tick for 0. The durations of
  the first \<open>S - 1\<close> ticks are strictly increasing and add up to \<open>(S - 1) * d\<close>. Velocities
  and durations are exact rationals here; the program computes them in doubles.
\<close>

theorem inertial_schedule:
  assumes S: "2 \<le> \<bar>target\<bar>" and d: "0 < d"
    and m: "step_message s (if target > 0 then 1 else - 1) = Inr m"
    and conn: "\<And>k. connect_ok s k" and sock: "\<And>k. \<exists>a. sock_send s k m = Inr a"
  shows "\<exists>w' v hs. initial_velocity \<bar>target\<bar> d = Inr v
      \<and> inertial_scroll s target d w = (Inr (), w')
      \<and> ticks w' = ticks w @ map (\<lambda>h. (if target > 0 then 1 else - 1, h)) hs
      \<and> hs = map (\<lambda>i. if i < \<bar>target\<bar> - 1
                        then 1 / (v * of_int (\<bar>target\<bar> - i) / of_int \<bar>target\<bar>) else 0)
                 [0..\<bar>target\<bar> - 1]
      \<and> length hs = nat \<bar>target\<bar>
      \<and> (\<forall>i j. i < j \<and> j < nat \<bar>target\<bar> - 1 \<longrightarrow> hs ! i < hs ! j)
      \<and> sum_list (take (nat \<bar>target\<bar> - 1) hs) = of_int (\<bar>target\<bar> - 1) * d
      \<and> last hs = 0"
proof -
  let ?n = "\<bar>target\<bar>"
  let ?step = "if target > 0 then 1 else - 1 :: int"
  define v where "v = of_int ?n * harmonic_from2 ?n / (of_int (?n - 1) * d)"
  define g where "g = (\<lambda>i. 1 / (v - of_int i * (v / of_int ?n)))"
  define hs where "hs = map (\<lambda>i. if i < ?n - 1
                        then 1 / (v * of_int (?n - i) / of_int ?n) else 0) [0..?n - 1]"
  have n0: "?n \<noteq> 0" and npos: "0 < ?n" using S by simp_all
  have iv: "initial_velocity ?n d = Inr v" and vpos: "0 < v"
    using initial_velocity_eq[OF S d] by (simp_all add: v_def)
  obtain w' where r: "inertial_scroll s target d w = (Inr (), w')"
    and t: "ticks w' = ticks w @
          map (\<lambda>i. (?step, 1 / (v - of_int i * (v / of_int ?n)) * (if i < ?n - 1 then 1 else 0)))
              [0..?n - 1]"
    using inertial_scroll_run[OF S d v_def m conn sock, of w] by blast
  have "map (\<lambda>i. (?step, 1 / (v - of_int i * (v / of_int ?n)) * (if i < ?n - 1 then 1 else 0)))
              [0..?n - 1]
      = map (\<lambda>h. (?step, h)) hs"
    unfolding hs_def map_map comp_def velocity_at[OF n0]
    by (rule map_cong[OF refl]) simp
  then have t': "ticks w' = ticks w @ map (\<lambda>h. (?step, h)) hs"
    using t by simp
  have len: "length hs = nat ?n"
    by (simp add: hs_def)
  have split: "hs = map g [0..?n - 2] @ [0]"
  proof -
    have "map (\<lambda>i. if i < ?n - 1 then 1 / (v * of_int (?n - i) / of_int ?n) else 0) [0..?n - 2]
        = map g [0..?n - 2]"
      unfolding g_def velocity_at[OF n0] by (rule map_cong[OF refl]) auto
    then show ?thesis
      unfolding hs_def upto_snoc_last[OF S] by simp
  qed
  have len': "length (map g [0..?n - 2]) = nat ?n - 1"
    using S by simp
  have nth: "\<And>k. k < nat ?n - 1 \<Longrightarrow> hs ! k = g (int k)"
  proof -
    fix k assume k: "k < nat ?n - 1"
    have "[0..?n - 2] ! k = 0 + int k"
      using k by (intro nth_upto) linarith
    then show "hs ! k = g (int k)"
      unfolding split using k len' by (simp add: nth_append)
  qed
  have inc: "\<forall>i j. i < j \<and> j < nat ?n - 1 \<longrightarrow> hs ! i < hs ! j"
  proof (intro allI impI)
    fix i j :: nat assume ij: "i < j \<and> j < nat ?n - 1"
    then have "g (int i) < g (int j)"
      unfolding g_def using hold_increasing[OF vpos npos, of "int i" "int j"] by linarith
    then show "hs ! i < hs ! j"
      using nth[of i] nth[of j] ij by simp
  qed
  have "take (nat ?n - 1) hs = map g [0..?n - 2]"
    unfolding split using len' by simp
  then have sum: "sum_list (take (nat ?n - 1) hs) = of_int (?n - 1) * d"
    using hold_sum[OF S d v_def] by (simp add: g_def)
  have lst: "last hs = 0"
    unfolding split by simp
  show ?thesis
    using iv r t' hs_def len inc sum lst by blast
qed

theorem inertial_schedule_witness:
  "2 \<le> \<bar>- 3 :: int\<bar> \<and> (0 :: rat) < 1 / 50
   \<and> initial_velocity 3 (1 / 50) = Inr (125 / 2)
   \<and> map snd (ticks (snd (inertial_scroll loopback (- 3) (1 / 50) world0))) = [2 / 125, 3 / 125, 0]
   \<and> (2 / 125 :: rat) < 3 / 125
   \<and> (2 / 125 :: rat) + 3 / 125 = of_int (3 - 1) * (1 / 50)"
proof -
  obtain m where m: "step_message loopback (if (- 3 :: int) > 0 then 1 else - 1) = Inr m"
    using step_message_loopback_digit[of "- 1"] by auto
  have iv: "initial_velocity 3 (1 / 50) = Inr (125 / 2)"
    by (simp add: initial_velocity_def float_div_def harmonic_from2_3)
  obtain w' v hs where "initial_velocity \<bar>- 3\<bar> (1 / 50) = Inr v"
    and r: "inertial_scroll loopback (- 3) (1 / 50) world0 = (Inr (), w')"
    and t: "ticks w' = ticks world0 @ map (\<lambda>h. (if (- 3 :: int) > 0 then 1 else - 1, h)) hs"
    and hs: "hs = map (\<lambda>i. if i < \<bar>- 3\<bar> - 1
                        then 1 / (v * of_int (\<bar>- 3\<bar> - i) / of_int \<bar>- 3\<bar>) else 0)
                 [0..\<bar>- 3\<bar> - 1]"
    using inertial_schedule[of "- 3" "1 / 50" loopback m world0, OF _ _ m]
    by (auto simp: loopback_def)
  then have v: "v = 125 / 2"
    using iv by simp
  have "hs = [2 / 125, 3 / 125, 0]"
    unfolding hs v by (simp add: upto.simps)
  then show ?thesis
    unfolding r using t iv by (simp add: world0_def comp_def)
qed



section \<open>A product that is not a double\<close>

lemma round_double_nearest:
  assumes lo: "pow2 e \<le> x" and hi: "x < pow2 (e + 1)"
    and e: "- 1022 \<le> e"
    and k: "round_half_even (x / pow2 (e - 52)) = k"
    and fin: "of_int k * pow2 (e - 52) < pow2 1024"
  shows "round_double x = Finite (of_int k * pow2 (e - 52))"
proof -
  have xpos: "0 < x" using lo pow2_pos[of e] by linarith
  then have ax: "\<bar>x\<bar> = x" by simp
  have b: "binade x = e" using binade_eq[OF lo hi e] .
  show ?thesis
    unfolding round_double_def b Let_def ax k using xpos fin by auto
qed

lemma round_double_point_15:
  "round_double \<bar>5404319552844595 / 36028797018963968\<bar>
     = Finite \<bar>5404319552844595 / 36028797018963968\<bar>"
  by (rule round_double_exact[where e = "- 3" and k = 5404319552844595])
     (simp_all add: pow2_def)

lemma floor_point_15_by_40: "\<lfloor>27021597764222975 / 4 :: rat\<rfloor> = 6755399441055743"
  by (rule floor_unique) simp_all

lemma floor_exact_point_15_by_40:
  "\<lfloor>5404319552844595 / 36028797018963968 * 40 :: rat\<rfloor> = 5"
  by (rule floor_unique) simp_all

lemma round_double_point_15_by_40:
  "round_double (5404319552844595 / 36028797018963968 * 40) = Finite 6"
proof -
  have q: "(5404319552844595 / 36028797018963968 * 40 :: rat) / pow2 (2 - 52)
      = 27021597764222975 / 4"
    by (simp add: pow2_def)
  have k: "round_half_even ((5404319552844595 / 36028797018963968 * 40 :: rat) / pow2 (2 - 52))
      = 6755399441055744"
    unfolding q by (simp add: round_half_even_def Let_def floor_point_15_by_40)
  have "round_double (5404319552844595 / 36028797018963968 * 40)
      = Finite (of_int 6755399441055744 * pow2 (2 - 52))"
    by (rule round_double_nearest[OF _ _ _ k]) (simp_all add: pow2_def)
  then show ?thesis by (simp add: pow2_def)
qed

text \<open>
  The product of line 115 is rounded to a double at each multiplication, and only then cut
  off. With an amount of 0.15 (the double \<open>5404319552844595 / 2 ^ 55\<close>, a little less than
  3/20) and a window of 42 lines the exact product is a little less than 6, and its
  floor is 5; the nearest double is 6.0, and the program plans 6 lines.
\<close>

lemma n_lines_rounds_the_product:
  "n_lines \<lparr>cursor_line = 1, line_count = 100, window_height = 42, kak_count = 1,
             amount = Finite (5404319552844595 / 36028797018963968),
             duration_ms = 10, speed = 0\<rparr> = Inr 6
   \<and> \<lfloor>1 * (5404319552844595 / 36028797018963968) * of_int (42 - 2) :: rat\<rfloor> = 5"
proof -
  let ?r = "\<lparr>cursor_line = 1, line_count = 100, window_height = 42, kak_count = 1,
             amount = Finite (5404319552844595 / 36028797018963968),
             duration_ms = 10, speed = 0\<rparr> :: request"
  have "line_product ?r = Inr (Finite 6)"
    using line_product_plain[of ?r "5404319552844595 / 36028797018963968"]
      round_double_point_15 round_double_point_15_by_40
    by simp
  then have "n_lines ?r = Inr 6"
    by (simp add: n_lines_def int_of_float_def maxscroll_def float_pos_def)
  then show ?thesis
    using floor_exact_point_15_by_40 by simp
qed

end
